theory Spec2Isabelle
  imports Main "HOL-Library.Word" "HOL-Library.Multiset" "HOL-Library.AList"
begin

unbundle bit_operations_syntax

chapter \<open>The structures\<close>

section \<open>JavaScript values shared by the structures\<close>

text \<open>
  The structures store what the page controller hands them: integers produced by
  \<open>parseInt\<close> (numeric structures) or strings (the trie). An integer is modelled as
  \<open>int\<close>; the numbers of the code are doubles, which are exact on integers of magnitude
  up to \<open>2^53\<close>, so the sums of the model are those of the code as long as they stay
  below that bound. Arithmetic that meets \<open>undefined\<close> yields \<open>NaN\<close>; \<open>jsnum\<close> keeps
  that case.
\<close>

datatype jsnum = Num int | NaN

fun js_add :: "jsnum \<Rightarrow> jsnum \<Rightarrow> jsnum" where
  "js_add (Num a) (Num b) = Num (a + b)"
| "js_add _ _ = NaN"

text \<open>
  The operator \<open>&\<close> works on the operands converted to 32-bit two's complement and
  returns a signed 32-bit result.
\<close>

definition js_bitand :: "int \<Rightarrow> int \<Rightarrow> int" where
  "js_bitand a b = sint ((word_of_int a :: 32 word) AND word_of_int b)"

section \<open>The event channel (EventBus.js)\<close>

text \<open>
  \<open>eventBus.emit(name, payload)\<close> hands the payload to the subscribers of \<open>name\<close> and
  never throws (each callback runs inside \<open>try/catch\<close>). An operation of the model returns
  the list of its emissions, oldest first. The payload's \<open>tree\<close> is a reference to the
  structure; the model records the state the structure has at the moment of the call.
\<close>

datatype ('v, 's) event =
    NODE_INSERTED 'v 's
  | NODE_DELETED 'v 's
  | NODE_SEARCHED 'v bool 's
  | TREE_RESET 's

section \<open>TreeBase (core/TreeBase.js)\<close>

text \<open>
  Every structure extends \<open>TreeBase\<close>: a root reference and a node counter. The display
  name is a constant of each class. The animation log (\<open>animationSteps\<close>) is append-only,
  is never read by an algorithm, and is left out of the model; so are the \<open>parent\<close>
  back-references and the drawing fields of the nodes.
\<close>

record 'n TreeBase =
  root :: 'n
  nodeCount :: int

section \<open>TreeNode (core/TreeNode.js)\<close>

text \<open>
  The binary node shared by the BST, the AVL tree, the Red-Black tree and the display tree
  of the heap: a value, two children (\<open>null\<close> is \<open>Null\<close>), the AVL height (1 in a new
  node) and the Red-Black colour (RED in a new node).
\<close>

datatype color = RED | BLACK

datatype TreeNode =
    Null
  | Node (left: TreeNode) (val: int) (height: int) (color: color) (right: TreeNode)

definition new_TreeNode :: "int \<Rightarrow> TreeNode" where
  "new_TreeNode v = Node Null v 1 RED Null"

text \<open>\<open>TreeBase._getHeight\<close>: the height computed from the shape.\<close>

fun getHeight :: "TreeNode \<Rightarrow> int" where
  "getHeight Null = 0"
| "getHeight (Node l v h c r) = 1 + max (getHeight l) (getHeight r)"

text \<open>
  \<open>TreeBase._inorder\<close> calls the callback on the left subtree, the node, the right
  subtree; \<open>getValues\<close> collects the values of the nodes in that order.
\<close>

fun getValues :: "TreeNode \<Rightarrow> int list" where
  "getValues Null = []"
| "getValues (Node l v h c r) = getValues l @ [v] @ getValues r"

text \<open>
  The state of a binary tree structure (\<open>BSTTree\<close>, \<open>AVLTree\<close>, \<open>RedBlackTree\<close>): the
  fields of \<open>TreeBase\<close>. A dereference of \<open>null\<close> throws a \<open>TypeError\<close>; a function that
  can throw returns \<open>None\<close> for it. The private helpers take the node counter as their last
  argument and return it with their result, since they change it as they go.
\<close>

type_synonym BinTree = "TreeNode TreeBase"

definition BinTree_new :: BinTree where
  "BinTree_new = \<lparr> root = Null, nodeCount = 0 \<rparr>"

text \<open>\<open>_findMin(node)\<close>, the same in the three classes: the leftmost node.\<close>

fun findMin :: "TreeNode \<Rightarrow> TreeNode option" where
  "findMin Null = None"
| "findMin (Node l v h c r) = (if l = Null then Some (Node l v h c r) else findMin l)"

section \<open>Binary search tree (class BSTTree, in trees/SegmentTree.js)\<close>

text \<open>\<open>_insertNode(node, value)\<close>: called on a node that is not \<open>null\<close>.\<close>

fun BST_insertNode :: "TreeNode \<Rightarrow> int \<Rightarrow> int \<Rightarrow> (TreeNode \<times> int) option" where
  "BST_insertNode Null v n = None"
| "BST_insertNode (Node l x h c r) v n =
     (if v < x then
        (if l = Null then Some (Node (new_TreeNode v) x h c r, n + 1)
         else (case BST_insertNode l v n of
                 None \<Rightarrow> None
               | Some (l', n') \<Rightarrow> Some (Node l' x h c r, n')))
      else if v > x then
        (if r = Null then Some (Node l x h c (new_TreeNode v), n + 1)
         else (case BST_insertNode r v n of
                 None \<Rightarrow> None
               | Some (r', n') \<Rightarrow> Some (Node l x h c r', n')))
      else Some (Node l x h c r, n))"

text \<open>
  \<open>insert(value)\<close>. The result is the new state and the emissions; both branches emit
  \<open>NODE_INSERTED\<close> as their last statement.
\<close>

definition BST_insert :: "int \<Rightarrow> BinTree \<Rightarrow> (BinTree \<times> (int, BinTree) event list) option" where
  "BST_insert v s =
     (if root s = Null then
        (let s' = s\<lparr> root := new_TreeNode v, nodeCount := nodeCount s + 1 \<rparr>
         in Some (s', [NODE_INSERTED v s']))
      else
        (case BST_insertNode (root s) v (nodeCount s) of
           None \<Rightarrow> None
         | Some (r, n) \<Rightarrow>
             (let s' = s\<lparr> root := r, nodeCount := n \<rparr>
              in Some (s', [NODE_INSERTED v s']))))"

text \<open>
  \<open>_deleteNode(node, value)\<close>: a leaf is dropped, a node with one child is replaced by
  that child, a node with two children takes the value of its in-order successor, which
  is then deleted from the right subtree.
\<close>

fun BST_deleteNode :: "TreeNode \<Rightarrow> int \<Rightarrow> int \<Rightarrow> (TreeNode \<times> int) option" where
  "BST_deleteNode Null v n = Some (Null, n)"
| "BST_deleteNode (Node l x h c r) v n =
     (if v < x then
        (case BST_deleteNode l v n of
           None \<Rightarrow> None
         | Some (l', n') \<Rightarrow> Some (Node l' x h c r, n'))
      else if v > x then
        (case BST_deleteNode r v n of
           None \<Rightarrow> None
         | Some (r', n') \<Rightarrow> Some (Node l x h c r', n'))
      else if l = Null \<and> r = Null then Some (Null, n - 1)
      else if (l = Null \<and> r \<noteq> Null) \<or> (l \<noteq> Null \<and> r = Null)
        then Some (if l \<noteq> Null then l else r, n - 1)
      else
        (case findMin r of
           None \<Rightarrow> None
         | Some Null \<Rightarrow> None
         | Some (Node sl sv sh sc sr) \<Rightarrow>
             (case BST_deleteNode r sv n of
                None \<Rightarrow> None
              | Some (r', n') \<Rightarrow> Some (Node l sv h c r', n'))))"

text \<open>
  \<open>delete(value)\<close>: the flag is whether the counter went down; the event is emitted
  when it did.
\<close>

definition BST_delete ::
  "int \<Rightarrow> BinTree \<Rightarrow> (bool \<times> BinTree \<times> (int, BinTree) event list) option" where
  "BST_delete v s =
     (case BST_deleteNode (root s) v (nodeCount s) of
        None \<Rightarrow> None
      | Some (r, n) \<Rightarrow>
          (let s' = s\<lparr> root := r, nodeCount := n \<rparr>;
               deleted = (n < nodeCount s)
           in Some (deleted, s', if deleted then [NODE_DELETED v s'] else [])))"

section \<open>AVL tree (trees/AVLTree.js)\<close>

text \<open>\<open>_getNodeHeight\<close>, \<open>_updateHeight\<close> and \<open>_getBalance\<close> work on the stored heights.\<close>

fun getNodeHeight :: "TreeNode \<Rightarrow> int" where
  "getNodeHeight Null = 0"
| "getNodeHeight (Node l v h c r) = h"

fun updateHeight :: "TreeNode \<Rightarrow> TreeNode" where
  "updateHeight Null = Null"
| "updateHeight (Node l v h c r) = Node l v (1 + max (getNodeHeight l) (getNodeHeight r)) c r"

fun getBalance :: "TreeNode \<Rightarrow> int" where
  "getBalance Null = 0"
| "getBalance (Node l v h c r) = getNodeHeight l - getNodeHeight r"

text \<open>
  \<open>_rotateRight(y)\<close>: \<open>x = y.left; T2 = x.right; x.right = y; y.left = T2\<close>, then the
  heights of \<open>y\<close> and of \<open>x\<close> are recomputed, in that order. It throws when \<open>y\<close> or
  \<open>y.left\<close> is \<open>null\<close>. \<open>_rotateLeft\<close> is the mirror image.
\<close>

fun AVL_rotateRight :: "TreeNode \<Rightarrow> TreeNode option" where
  "AVL_rotateRight (Node (Node a xv xh xc T2) yv yh yc c) =
     Some (updateHeight (Node a xv xh xc (updateHeight (Node T2 yv yh yc c))))"
| "AVL_rotateRight _ = None"

fun AVL_rotateLeft :: "TreeNode \<Rightarrow> TreeNode option" where
  "AVL_rotateLeft (Node a xv xh xc (Node T2 yv yh yc c)) =
     Some (updateHeight (Node (updateHeight (Node a xv xh xc T2)) yv yh yc c))"
| "AVL_rotateLeft _ = None"

text \<open>
  The statements of \<open>_insertNode\<close> that follow the recursive call: the height is
  recomputed, then four tests run in the order LL, RR, LR, RL. Each test reads
  \<open>node.left.value\<close> (or \<open>node.right.value\<close>) only after its balance condition held, so
  the two left tests are grouped under \<open>balance > 1\<close> and the two right tests under
  \<open>balance < -1\<close>; reading the value of a \<open>null\<close> child throws.
\<close>

fun AVL_insert_rebalance :: "TreeNode \<Rightarrow> int \<Rightarrow> TreeNode option" where
  "AVL_insert_rebalance Null v = Some Null"
| "AVL_insert_rebalance (Node l x h c r) v =
     (let h' = 1 + max (getNodeHeight l) (getNodeHeight r);
          balance = getNodeHeight l - getNodeHeight r
      in
        if balance > 1 then
          (case l of
             Null \<Rightarrow> None
           | Node ll lv lh lc lr \<Rightarrow>
               if v < lv then AVL_rotateRight (Node l x h' c r)
               else if v > lv then
                 (case AVL_rotateLeft l of
                    None \<Rightarrow> None
                  | Some l' \<Rightarrow> AVL_rotateRight (Node l' x h' c r))
               else Some (Node l x h' c r))
        else if balance < -1 then
          (case r of
             Null \<Rightarrow> None
           | Node rl rv rh rc rr \<Rightarrow>
               if v > rv then AVL_rotateLeft (Node l x h' c r)
               else if v < rv then
                 (case AVL_rotateRight r of
                    None \<Rightarrow> None
                  | Some r' \<Rightarrow> AVL_rotateLeft (Node l x h' c r'))
               else Some (Node l x h' c r))
        else Some (Node l x h' c r))"

text \<open>\<open>_insertNode(node, value)\<close>.\<close>

fun AVL_insertNode :: "TreeNode \<Rightarrow> int \<Rightarrow> int \<Rightarrow> (TreeNode \<times> int) option" where
  "AVL_insertNode Null v n = Some (new_TreeNode v, n + 1)"
| "AVL_insertNode (Node l x h c r) v n =
     (if v < x then
        (case AVL_insertNode l v n of
           None \<Rightarrow> None
         | Some (l', n') \<Rightarrow>
             (case AVL_insert_rebalance (Node l' x h c r) v of
                None \<Rightarrow> None
              | Some t \<Rightarrow> Some (t, n')))
      else if v > x then
        (case AVL_insertNode r v n of
           None \<Rightarrow> None
         | Some (r', n') \<Rightarrow>
             (case AVL_insert_rebalance (Node l x h c r') v of
                None \<Rightarrow> None
              | Some t \<Rightarrow> Some (t, n')))
      else Some (Node l x h c r, n))"

definition AVL_insert :: "int \<Rightarrow> BinTree \<Rightarrow> (BinTree \<times> (int, BinTree) event list) option" where
  "AVL_insert v s =
     (case AVL_insertNode (root s) v (nodeCount s) of
        None \<Rightarrow> None
      | Some (r, n) \<Rightarrow>
          (let s' = s\<lparr> root := r, nodeCount := n \<rparr>
           in Some (s', [NODE_INSERTED v s'])))"

text \<open>
  The statements of \<open>_deleteNode\<close> that follow the three-way branch: the height is
  recomputed, then the tests LL, LR, RR, RL run, which look at the balance of the child
  (0 for \<open>null\<close>) instead of at the value.
\<close>

fun AVL_delete_rebalance :: "TreeNode \<Rightarrow> TreeNode option" where
  "AVL_delete_rebalance Null = Some Null"
| "AVL_delete_rebalance (Node l x h c r) =
     (let h' = 1 + max (getNodeHeight l) (getNodeHeight r);
          balance = getNodeHeight l - getNodeHeight r
      in
        if balance > 1 \<and> getBalance l \<ge> 0 then AVL_rotateRight (Node l x h' c r)
        else if balance > 1 \<and> getBalance l < 0 then
          (case AVL_rotateLeft l of
             None \<Rightarrow> None
           | Some l' \<Rightarrow> AVL_rotateRight (Node l' x h' c r))
        else if balance < -1 \<and> getBalance r \<le> 0 then AVL_rotateLeft (Node l x h' c r)
        else if balance < -1 \<and> getBalance r > 0 then
          (case AVL_rotateRight r of
             None \<Rightarrow> None
           | Some r' \<Rightarrow> AVL_rotateLeft (Node l x h' c r'))
        else Some (Node l x h' c r))"

text \<open>\<open>_deleteNode(node, value)\<close>.\<close>

fun AVL_deleteNode :: "TreeNode \<Rightarrow> int \<Rightarrow> int \<Rightarrow> (TreeNode \<times> int) option" where
  "AVL_deleteNode Null v n = Some (Null, n)"
| "AVL_deleteNode (Node l x h c r) v n =
     (if v < x then
        (case AVL_deleteNode l v n of
           None \<Rightarrow> None
         | Some (l', n') \<Rightarrow>
             (case AVL_delete_rebalance (Node l' x h c r) of
                None \<Rightarrow> None
              | Some t \<Rightarrow> Some (t, n')))
      else if v > x then
        (case AVL_deleteNode r v n of
           None \<Rightarrow> None
         | Some (r', n') \<Rightarrow>
             (case AVL_delete_rebalance (Node l x h c r') of
                None \<Rightarrow> None
              | Some t \<Rightarrow> Some (t, n')))
      else if l = Null \<or> r = Null then Some (if l \<noteq> Null then l else r, n - 1)
      else
        (case findMin r of
           None \<Rightarrow> None
         | Some Null \<Rightarrow> None
         | Some (Node sl sv sh sc sr) \<Rightarrow>
             (case AVL_deleteNode r sv n of
                None \<Rightarrow> None
              | Some (r', n') \<Rightarrow>
                  (case AVL_delete_rebalance (Node l sv h c r') of
                     None \<Rightarrow> None
                   | Some t \<Rightarrow> Some (t, n')))))"

definition AVL_delete ::
  "int \<Rightarrow> BinTree \<Rightarrow> (bool \<times> BinTree \<times> (int, BinTree) event list) option" where
  "AVL_delete v s =
     (case AVL_deleteNode (root s) v (nodeCount s) of
        None \<Rightarrow> None
      | Some (r, n) \<Rightarrow>
          (let s' = s\<lparr> root := r, nodeCount := n \<rparr>;
               deleted = (n < nodeCount s)
           in Some (deleted, s', if deleted then [NODE_DELETED v s'] else [])))"

text \<open>\<open>isBalanced()\<close> is \<open>_checkBalance(root)\<close>, on the stored heights.\<close>

fun checkBalance :: "TreeNode \<Rightarrow> bool" where
  "checkBalance Null = True"
| "checkBalance (Node l v h c r) =
     (if \<bar>getBalance (Node l v h c r)\<bar> > 1 then False
      else checkBalance l \<and> checkBalance r)"

section \<open>Red-Black tree (class RedBlackTree)\<close>

fun isRed :: "TreeNode \<Rightarrow> bool" where
  "isRed Null = False"
| "isRed (Node l v h c r) = (c = RED)"

fun setBlack :: "TreeNode \<Rightarrow> TreeNode" where
  "setBlack Null = Null"
| "setBlack (Node l v h c r) = Node l v h BLACK r"

text \<open>\<open>_flipColors(node)\<close>: the node turns RED, the children that exist turn BLACK.\<close>

fun flipColors :: "TreeNode \<Rightarrow> TreeNode option" where
  "flipColors Null = None"
| "flipColors (Node l v h c r) = Some (Node (setBlack l) v h RED (setBlack r))"

text \<open>
  \<open>_rotateLeft(node)\<close>: \<open>x = node.right; node.right = x.left; x.left = node\<close>, then
  \<open>x\<close> takes the colour of \<open>node\<close> and \<open>node\<close> turns RED. \<open>_rotateRight\<close> mirrors it.
\<close>

fun RB_rotateLeft :: "TreeNode \<Rightarrow> TreeNode option" where
  "RB_rotateLeft (Node a nv nh nc (Node xl xv xh xc xr)) =
     Some (Node (Node a nv nh RED xl) xv xh nc xr)"
| "RB_rotateLeft _ = None"

fun RB_rotateRight :: "TreeNode \<Rightarrow> TreeNode option" where
  "RB_rotateRight (Node (Node xl xv xh xc xr) nv nh nc b) =
     Some (Node xl xv xh nc (Node xr nv nh RED b))"
| "RB_rotateRight _ = None"

text \<open>
  \<open>_fixInsertion(node)\<close> is three \<open>if\<close> statements in a row, each working on the node
  the one before left: flip when both children are RED; rotate left when the right child is
  RED and the left is not; rotate right when the left child and its left child are RED.
\<close>

fun fix_flip :: "TreeNode \<Rightarrow> TreeNode option" where
  "fix_flip Null = None"
| "fix_flip (Node l v h c r) =
     (if isRed l \<and> isRed r then flipColors (Node l v h c r) else Some (Node l v h c r))"

fun fix_left :: "TreeNode \<Rightarrow> TreeNode option" where
  "fix_left Null = None"
| "fix_left (Node l v h c r) =
     (if isRed r \<and> \<not> isRed l then RB_rotateLeft (Node l v h c r) else Some (Node l v h c r))"

fun fix_right :: "TreeNode \<Rightarrow> TreeNode option" where
  "fix_right Null = None"
| "fix_right (Node l v h c r) =
     (if isRed l \<and> (case l of Null \<Rightarrow> False | Node ll lv lh lc lr \<Rightarrow> isRed ll)
      then RB_rotateRight (Node l v h c r) else Some (Node l v h c r))"

definition fixInsertion :: "TreeNode \<Rightarrow> TreeNode option" where
  "fixInsertion node = Option.bind (Option.bind (fix_flip node) fix_left) fix_right"

text \<open>\<open>_insertNode(node, value)\<close>: a new node is RED (the default of \<open>TreeNode\<close>).\<close>

fun RB_insertNode :: "TreeNode \<Rightarrow> int \<Rightarrow> int \<Rightarrow> (TreeNode \<times> int) option" where
  "RB_insertNode Null v n = Some (new_TreeNode v, n + 1)"
| "RB_insertNode (Node l x h c r) v n =
     (if v < x then
        (case RB_insertNode l v n of
           None \<Rightarrow> None
         | Some (l', n') \<Rightarrow>
             (case fixInsertion (Node l' x h c r) of
                None \<Rightarrow> None
              | Some t \<Rightarrow> Some (t, n')))
      else if v > x then
        (case RB_insertNode r v n of
           None \<Rightarrow> None
         | Some (r', n') \<Rightarrow>
             (case fixInsertion (Node l x h c r') of
                None \<Rightarrow> None
              | Some t \<Rightarrow> Some (t, n')))
      else Some (Node l x h c r, n))"

text \<open>\<open>insert(value)\<close>: the root is forced BLACK before the event is emitted.\<close>

definition RB_insert :: "int \<Rightarrow> BinTree \<Rightarrow> (BinTree \<times> (int, BinTree) event list) option" where
  "RB_insert v s =
     (case RB_insertNode (root s) v (nodeCount s) of
        None \<Rightarrow> None
      | Some (r, n) \<Rightarrow>
          (let s' = s\<lparr> root := setBlack r, nodeCount := n \<rparr>
           in Some (s', [NODE_INSERTED v s'])))"

text \<open>\<open>_simpleBSTDelete(node, value)\<close>: a plain BST delete, without any fix-up.\<close>

fun simpleBSTDelete :: "TreeNode \<Rightarrow> int \<Rightarrow> int \<Rightarrow> (TreeNode \<times> int) option" where
  "simpleBSTDelete Null v n = Some (Null, n)"
| "simpleBSTDelete (Node l x h c r) v n =
     (if v < x then
        (case simpleBSTDelete l v n of
           None \<Rightarrow> None
         | Some (l', n') \<Rightarrow> Some (Node l' x h c r, n'))
      else if v > x then
        (case simpleBSTDelete r v n of
           None \<Rightarrow> None
         | Some (r', n') \<Rightarrow> Some (Node l x h c r', n'))
      else if l = Null then Some (r, n - 1)
      else if r = Null then Some (l, n - 1)
      else
        (case findMin r of
           None \<Rightarrow> None
         | Some Null \<Rightarrow> None
         | Some (Node sl sv sh sc sr) \<Rightarrow>
             (case simpleBSTDelete r sv n of
                None \<Rightarrow> None
              | Some (r', n') \<Rightarrow> Some (Node l sv h c r', n'))))"

text \<open>
  \<open>delete(value)\<close>: the root is blackened and the event emitted under the condition
  \<open>deleted && this.root\<close>, that is, only when a node was removed and the tree is not
  empty afterwards.
\<close>

definition RB_delete ::
  "int \<Rightarrow> BinTree \<Rightarrow> (bool \<times> BinTree \<times> (int, BinTree) event list) option" where
  "RB_delete v s =
     (case simpleBSTDelete (root s) v (nodeCount s) of
        None \<Rightarrow> None
      | Some (r, n) \<Rightarrow>
          (let deleted = (n < nodeCount s) in
           if deleted \<and> r \<noteq> Null then
             (let s' = s\<lparr> root := setBlack r, nodeCount := n \<rparr>
              in Some (deleted, s', [NODE_DELETED v s']))
           else Some (deleted, s\<lparr> root := r, nodeCount := n \<rparr>, [])))"

text \<open>Runs of inserts, and of inserts and deletes, from a given state.\<close>

fun BST_inserts :: "int list \<Rightarrow> BinTree \<Rightarrow> BinTree option" where
  "BST_inserts [] s = Some s"
| "BST_inserts (v # vs) s =
     (case BST_insert v s of None \<Rightarrow> None | Some (s', evs) \<Rightarrow> BST_inserts vs s')"

fun AVL_inserts :: "int list \<Rightarrow> BinTree \<Rightarrow> BinTree option" where
  "AVL_inserts [] s = Some s"
| "AVL_inserts (v # vs) s =
     (case AVL_insert v s of None \<Rightarrow> None | Some (s', evs) \<Rightarrow> AVL_inserts vs s')"

fun RB_inserts :: "int list \<Rightarrow> BinTree \<Rightarrow> BinTree option" where
  "RB_inserts [] s = Some s"
| "RB_inserts (v # vs) s =
     (case RB_insert v s of None \<Rightarrow> None | Some (s', evs) \<Rightarrow> RB_inserts vs s')"

datatype tree_op = Insert int | Delete int

fun AVL_step :: "tree_op \<Rightarrow> BinTree \<Rightarrow> BinTree option" where
  "AVL_step (Insert v) s = map_option fst (AVL_insert v s)"
| "AVL_step (Delete v) s = map_option (\<lambda>(deleted, s', evs). s') (AVL_delete v s)"

fun AVL_run :: "tree_op list \<Rightarrow> BinTree \<Rightarrow> BinTree option" where
  "AVL_run [] s = Some s"
| "AVL_run (x # xs) s = (case AVL_step x s of None \<Rightarrow> None | Some s' \<Rightarrow> AVL_run xs s')"

section \<open>Min-heap (trees/MinHeap.js)\<close>

text \<open>
  \<open>array\<close> is the heap; \<open>root\<close> is the display tree rebuilt from it after every
  change.
\<close>

record MinHeap = "TreeNode TreeBase" +
  array :: "int list"

definition MinHeap_new :: MinHeap where
  "MinHeap_new = \<lparr> root = Null, nodeCount = 0, array = [] \<rparr>"

text \<open>
  \<open>_heapifyUp(index)\<close>. A comparison with a slot outside the array is a comparison
  with \<open>undefined\<close> and is false.
\<close>

function heapifyUp :: "int list \<Rightarrow> nat \<Rightarrow> int list" where
  "heapifyUp xs index =
     (if index = 0 then xs
      else let parentIndex = (index - 1) div 2 in
        if index < length xs \<and> xs ! index < xs ! parentIndex
        then heapifyUp (xs[index := xs ! parentIndex, parentIndex := xs ! index]) parentIndex
        else xs)"
  by pat_completeness auto
termination
  by (relation "measure (\<lambda>(xs, index). index)") auto

declare heapifyUp.simps [simp del]

text \<open>\<open>_heapifyDown(index)\<close>.\<close>

definition smallest_of :: "int list \<Rightarrow> nat \<Rightarrow> nat" where
  "smallest_of xs index =
     (let leftChild = 2 * index + 1;
          rightChild = 2 * index + 2;
          smallest = index;
          smallest = (if leftChild < length xs \<and> xs ! leftChild < xs ! smallest
                      then leftChild else smallest);
          smallest = (if rightChild < length xs \<and> xs ! rightChild < xs ! smallest
                      then rightChild else smallest)
      in smallest)"

lemma smallest_of_cases:
  "smallest_of xs i = i \<or>
   (smallest_of xs i = 2 * i + 1 \<and> 2 * i + 1 < length xs) \<or>
   (smallest_of xs i = 2 * i + 2 \<and> 2 * i + 2 < length xs)"
  by (simp add: smallest_of_def Let_def)

function heapifyDown :: "int list \<Rightarrow> nat \<Rightarrow> int list" where
  "heapifyDown xs index =
     (let smallest = smallest_of xs index in
      if smallest \<noteq> index
      then heapifyDown (xs[index := xs ! smallest, smallest := xs ! index]) smallest
      else xs)"
  by pat_completeness auto
termination
proof (relation "measure (\<lambda>(xs, index). length xs - index)")
  show "wf (measure (\<lambda>(xs, index). length xs - index))"
    by simp
next
  fix xs :: "int list" and index x
  assume "x = smallest_of xs index" and "x \<noteq> index"
  then show "((xs[index := xs ! x, x := xs ! index], x), (xs, index))
               \<in> measure (\<lambda>(xs, index). length xs - index)"
    using smallest_of_cases [of xs index] by auto
qed

declare heapifyDown.simps [simp del]

text \<open>\<open>_buildTreeFromArray(index)\<close>, the display tree of \<open>_rebuildTree\<close>.\<close>

function buildTreeFromArray :: "int list \<Rightarrow> nat \<Rightarrow> TreeNode" where
  "buildTreeFromArray xs index =
     (if index \<ge> length xs then Null
      else Node (buildTreeFromArray xs (2 * index + 1)) (xs ! index) 1 RED
                (buildTreeFromArray xs (2 * index + 2)))"
  by pat_completeness auto
termination
  by (relation "measure (\<lambda>(xs, index). length xs - index)") auto

declare buildTreeFromArray.simps [simp del]

text \<open>\<open>insert(value)\<close>: push, count, sift up, rebuild the display tree, emit.\<close>

definition MinHeap_insert ::
  "int \<Rightarrow> MinHeap \<Rightarrow> MinHeap \<times> (int, MinHeap) event list" where
  "MinHeap_insert v s =
     (let a = array s @ [v];
          a = heapifyUp a (length a - 1);
          s' = s\<lparr> array := a, nodeCount := nodeCount s + 1, root := buildTreeFromArray a 0 \<rparr>
      in (s', [NODE_INSERTED v s']))"

text \<open>
  \<open>delete()\<close>: false on an empty heap; otherwise the root value is remembered, the last
  element is popped and, if anything is left, written to slot 0 and sifted down. The
  result is the returned flag, the new state and the emissions.
\<close>

definition MinHeap_delete ::
  "MinHeap \<Rightarrow> bool \<times> MinHeap \<times> (int, MinHeap) event list" where
  "MinHeap_delete s =
     (if length (array s) = 0 then (False, s, [])
      else
        let minv = array s ! 0;
            lastv = last (array s);
            a = butlast (array s);
            a = (if length a > 0 then heapifyDown (a[0 := lastv]) 0 else a);
            s' = s\<lparr> array := a, nodeCount := nodeCount s - 1, root := buildTreeFromArray a 0 \<rparr>
        in (True, s', [NODE_DELETED minv s']))"

text \<open>The two operations of the page, and a run of them from the state \<open>s\<close>.\<close>

datatype heap_op = HInsert int | HDelete

fun heap_step :: "MinHeap \<Rightarrow> heap_op \<Rightarrow> MinHeap" where
  "heap_step s (HInsert v) = fst (MinHeap_insert v s)"
| "heap_step s HDelete = fst (snd (MinHeap_delete s))"

definition heap_run :: "heap_op list \<Rightarrow> MinHeap" where
  "heap_run ops = foldl heap_step MinHeap_new ops"

text \<open>
  \<open>deleted_values n s\<close>: the values announced by \<open>n\<close> successive calls of
  \<open>delete()\<close>, in the order of the calls (a call on an empty heap announces nothing).
\<close>

fun event_value :: "(int, MinHeap) event \<Rightarrow> int list" where
  "event_value (NODE_DELETED v s) = [v]"
| "event_value _ = []"

fun deleted_values :: "nat \<Rightarrow> MinHeap \<Rightarrow> int list" where
  "deleted_values 0 s = []"
| "deleted_values (Suc n) s =
     (case MinHeap_delete s of
        (ok, s', evs) \<Rightarrow> concat (map event_value evs) @ deleted_values n s')"

section \<open>JavaScript arrays\<close>

text \<open>
  The multi-way nodes use arrays the JavaScript way: a read past the end gives
  \<open>undefined\<close>; a write at or past the end grows the array, the slots in between being
  holes that read as \<open>undefined\<close>; assigning \<open>length\<close> truncates the array or pads it
  with holes. The first argument \<open>u\<close> of the three functions is the element that stands
  for \<open>undefined\<close> in the array at hand.
\<close>

definition js_get :: "'a \<Rightarrow> 'a list \<Rightarrow> nat \<Rightarrow> 'a" where
  "js_get u xs i = (if i < length xs then xs ! i else u)"

definition js_set :: "'a \<Rightarrow> 'a list \<Rightarrow> nat \<Rightarrow> 'a \<Rightarrow> 'a list" where
  "js_set u xs i v =
     (if i < length xs then xs[i := v] else xs @ replicate (i - length xs) u @ [v])"

definition js_set_length :: "'a \<Rightarrow> 'a list \<Rightarrow> nat \<Rightarrow> 'a list" where
  "js_set_length u xs n =
     (if n \<le> length xs then take n xs else xs @ replicate (n - length xs) u)"

text \<open>
  \<open>for (j = from; j > lo; j--) a[j] = a[j - 1]\<close>: the loop that makes room in the key
  and child arrays of a parent.
\<close>

function shift_right :: "'a \<Rightarrow> 'a list \<Rightarrow> nat \<Rightarrow> nat \<Rightarrow> 'a list" where
  "shift_right u xs j lo =
     (if j > lo then shift_right u (js_set u xs j (js_get u xs (j - 1))) (j - 1) lo else xs)"
  by pat_completeness auto
termination
  by (relation "measure (\<lambda>(u, xs, j, lo). j)") auto

declare shift_right.simps [simp del]

text \<open>
  Keys are numbers or \<open>undefined\<close> (\<open>None\<close>). A comparison with \<open>undefined\<close> is false.
\<close>

fun js_lt :: "int \<Rightarrow> int option \<Rightarrow> bool" where
  "js_lt v None = False"
| "js_lt v (Some k) = (v < k)"

fun js_gt :: "int \<Rightarrow> int option \<Rightarrow> bool" where
  "js_gt v None = False"
| "js_gt v (Some k) = (v > k)"

section \<open>B-Tree (trees/BTree.js)\<close>

text \<open>
  \<open>BTreeNode\<close> and \<open>BPlusTreeNode\<close> have the same fields: the key array, the child
  array and the leaf flag (the \<open>next\<close> link of the B+ leaves is not modelled: no
  operation below reads it). \<open>NoNode\<close> is \<open>null\<close> or \<open>undefined\<close>: an empty root, a
  hole in a child array. Reading a field of it throws.
\<close>

datatype BTreeNode =
    NoNode
  | BTreeNode (keys: "int option list") (children: "BTreeNode list") (isLeaf: bool)

record BTree = "BTreeNode TreeBase" +
  degree :: nat

definition BTree_new :: "nat \<Rightarrow> BTree" where
  "BTree_new t = \<lparr> root = NoNode, nodeCount = 0, degree = t \<rparr>"

text \<open>
  \<open>_splitChild(x, i)\<close>, statement by statement. \<open>z\<close> receives the keys
  \<open>y.keys[t .. 2t-2]\<close> and, when \<open>y\<close> is no leaf, the children \<open>y.children[t .. 2t-1]\<close>
  (the two copy loops fill \<open>z\<close>'s empty arrays from slot 0 upwards). Then \<open>y\<close>'s arrays are
  cut to \<open>t - 1\<close> keys and \<open>t\<close> children; a negative length throws a \<open>RangeError\<close>.
  Then the parent's arrays are shifted and \<open>z\<close> is stored at \<open>i + 1\<close>. The last
  statement, \<open>x.keys[i] = y.keys[t - 1]\<close>, reads \<open>y.keys\<close> after it was cut to
  \<open>t - 1\<close> entries.
\<close>

fun BTree_splitChild :: "nat \<Rightarrow> BTreeNode \<Rightarrow> nat \<Rightarrow> BTreeNode option" where
  "BTree_splitChild t NoNode i = None"
| "BTree_splitChild t (BTreeNode xk xc xl) i =
     (case js_get NoNode xc i of
        NoNode \<Rightarrow> None
      | BTreeNode yk yc yl \<Rightarrow>
          if t = 0 then None
          else
            let zk = map (\<lambda>j. js_get None yk (j + t)) [0..<t - 1];
                zc = (if \<not> yl then map (\<lambda>j. js_get NoNode yc (j + t)) [0..<t] else []);
                z = BTreeNode zk zc yl;
                yk' = js_set_length None yk (t - 1);
                yc' = js_set_length NoNode yc (if yl then 0 else t);
                y' = BTreeNode yk' yc' yl;
                xc1 = xc[i := y'];
                xc2 = js_set NoNode (shift_right NoNode xc1 (length xc1) (i + 1)) (i + 1) z;
                xk2 = js_set None (shift_right None xk (length xk) i) i (js_get None yk' (t - 1))
            in Some (BTreeNode xk2 xc2 xl))"

text \<open>
  The two loops of \<open>_insertNonFull\<close>, with \<open>j\<close> standing for \<open>i + 1\<close>: in a leaf,
  \<open>while (i >= 0 && value < x.keys[i]) { x.keys[i + 1] = x.keys[i]; i-- }\<close> followed by
  \<open>x.keys[i + 1] = value\<close>; in an inner node, \<open>while (i >= 0 && value < x.keys[i]) i--\<close>
  followed by \<open>i++\<close>.
\<close>

function leaf_shift :: "int option list \<Rightarrow> nat \<Rightarrow> int \<Rightarrow> int option list" where
  "leaf_shift ks j v =
     (if j > 0 \<and> js_lt v (js_get None ks (j - 1))
      then leaf_shift (js_set None ks j (js_get None ks (j - 1))) (j - 1) v
      else js_set None ks j (Some v))"
  by pat_completeness auto
termination
  by (relation "measure (\<lambda>(ks, j, v). j)") auto

declare leaf_shift.simps [simp del]

function child_index :: "int option list \<Rightarrow> nat \<Rightarrow> int \<Rightarrow> nat" where
  "child_index ks j v =
     (if j > 0 \<and> js_lt v (js_get None ks (j - 1)) then child_index ks (j - 1) v else j)"
  by pat_completeness auto
termination
  by (relation "measure (\<lambda>(ks, j, v). j)") auto

declare child_index.simps [simp del]

text \<open>
  The statements of the inner-node branch of \<open>_insertNonFull\<close> up to the recursive call:
  the child index is found, a full child is split first, and after a split the index moves
  right when \<open>value > x.keys[i]\<close>. The result is the parent as it is then, and the index
  of the child to descend into.
\<close>

definition is_full :: "nat \<Rightarrow> BTreeNode \<Rightarrow> bool option" where
  "is_full t n =
     (case n of
        NoNode \<Rightarrow> None
      | BTreeNode ks cs leaf \<Rightarrow> Some (int (length ks) = 2 * int t - 1))"

definition BTree_descend :: "nat \<Rightarrow> BTreeNode \<Rightarrow> int \<Rightarrow> (BTreeNode \<times> nat) option" where
  "BTree_descend t x v =
     (case x of
        NoNode \<Rightarrow> None
      | BTreeNode ks cs leaf \<Rightarrow>
          let i = child_index ks (length ks) v in
          (case is_full t (js_get NoNode cs i) of
             None \<Rightarrow> None
           | Some False \<Rightarrow> Some (x, i)
           | Some True \<Rightarrow>
               (case BTree_splitChild t x i of
                  None \<Rightarrow> None
                | Some NoNode \<Rightarrow> None
                | Some (BTreeNode ks' cs' leaf') \<Rightarrow>
                    Some (BTreeNode ks' cs' leaf',
                          if js_gt v (js_get None ks' i) then i + 1 else i))))"

text \<open>
  A measure for the recursion of \<open>_insertNonFull\<close>: the number of levels below a node.
\<close>

fun levels :: "BTreeNode \<Rightarrow> nat" where
  "levels NoNode = 0"
| "levels (BTreeNode ks cs leaf) = Suc (Max (insert 0 (set (map levels cs))))"

lemma levels_le_Max:
  "c \<in> set cs \<Longrightarrow> levels c \<le> Max (insert 0 (set (map levels cs)))"
  by (rule Max_ge) auto

lemma levels_child: "c \<in> set cs \<Longrightarrow> levels c < levels (BTreeNode ks cs leaf)"
  using levels_le_Max [of c cs] by (simp add: less_Suc_eq_le)

lemma levels_mono:
  assumes "set cs1 \<subseteq> insert NoNode (set cs2)"
  shows "levels (BTreeNode k1 cs1 l1) \<le> levels (BTreeNode k2 cs2 l2)"
proof -
  have "set (map levels cs1) \<subseteq> insert 0 (set (map levels cs2))"
    using assms by auto
  then have "Max (insert 0 (set (map levels cs1))) \<le> Max (insert 0 (set (map levels cs2)))"
    by (intro Max_mono) auto
  then show ?thesis by simp
qed

lemma set_js_get: "js_get u xs i \<in> insert u (set xs)"
  by (simp add: js_get_def)

lemma set_js_set: "set (js_set u xs i v) \<subseteq> insert v (insert u (set xs))"
  by (auto simp add: js_set_def dest: set_update_subset_insert [THEN subsetD])

lemma set_js_set_length: "set (js_set_length u xs n) \<subseteq> insert u (set xs)"
  by (auto simp add: js_set_length_def dest: in_set_takeD)

lemma set_shift_right: "set (shift_right u xs j lo) \<subseteq> insert u (set xs)"
proof (induction u xs j lo rule: shift_right.induct)
  case (1 u xs j lo)
  show ?case
  proof (cases "j > lo")
    case True
    have "set (js_set u xs j (js_get u xs (j - 1))) \<subseteq> insert u (set xs)"
      using set_js_set [of u xs j "js_get u xs (j - 1)"] set_js_get [of u xs "j - 1"] by auto
    with 1 [OF True] True show ?thesis
      by (subst shift_right.simps) auto
  next
    case False
    then show ?thesis by (subst shift_right.simps) auto
  qed
qed

lemma BTree_splitChild_levels:
  assumes "BTree_splitChild t (BTreeNode xk xc xl) i = Some (BTreeNode ks' cs' leaf')"
  shows "\<forall>c \<in> set cs'. levels c < levels (BTreeNode xk xc xl)"
proof (cases "js_get NoNode xc i")
  case NoNode
  with assms show ?thesis by simp
next
  case (BTreeNode yk yc yl)
  then have yin: "BTreeNode yk yc yl \<in> set xc"
    by (metis BTreeNode.distinct(1) js_get_def nth_mem)
  define z where "z = BTreeNode (map (\<lambda>j. js_get None yk (j + t)) [0..<t - 1])
      (if \<not> yl then map (\<lambda>j. js_get NoNode yc (j + t)) [0..<t] else []) yl"
  define y' where "y' = BTreeNode (js_set_length None yk (t - 1))
      (js_set_length NoNode yc (if yl then 0 else t)) yl"
  from assms BTreeNode have t: "t \<noteq> 0"
    and cs': "cs' = js_set NoNode (shift_right NoNode (xc[i := y']) (length (xc[i := y'])) (i + 1)) (i + 1) z"
    by (auto simp add: Let_def z_def y'_def split: if_splits)
  have ly: "levels y' \<le> levels (BTreeNode yk yc yl)"
    unfolding y'_def by (rule levels_mono) (rule set_js_set_length)
  have "set (if \<not> yl then map (\<lambda>j. js_get NoNode yc (j + t)) [0..<t] else []) \<subseteq> insert NoNode (set yc)"
    using set_js_get [of NoNode yc] by auto
  then have lz: "levels z \<le> levels (BTreeNode yk yc yl)"
    unfolding z_def by (rule levels_mono)
  have sub: "set cs' \<subseteq> insert z (insert NoNode (insert y' (set xc)))"
    unfolding cs'
    using set_js_set [of NoNode "shift_right NoNode (xc[i := y']) (length (xc[i := y'])) (i + 1)" "i + 1" z]
      set_shift_right [of NoNode "xc[i := y']" "length (xc[i := y'])" "i + 1"]
      set_update_subset_insert [of xc i y']
    by blast
  have ylt: "levels (BTreeNode yk yc yl) < levels (BTreeNode xk xc xl)"
    by (rule levels_child [OF yin])
  have zlt: "levels z < levels (BTreeNode xk xc xl)" by (rule le_less_trans [OF lz ylt])
  have y'lt: "levels y' < levels (BTreeNode xk xc xl)" by (rule le_less_trans [OF ly ylt])
  have nlt: "levels NoNode < levels (BTreeNode xk xc xl)" by simp
  show ?thesis
  proof
    fix c assume "c \<in> set cs'"
    with sub have "c = z \<or> c = NoNode \<or> c = y' \<or> c \<in> set xc" by auto
    then show "levels c < levels (BTreeNode xk xc xl)"
      using zlt y'lt nlt levels_child [of c xc xk xl] by blast
  qed
qed

lemma BTree_descend_levels:
  assumes "BTree_descend t x v = Some (BTreeNode ks' cs' leaf', i')"
  shows "levels (js_get NoNode cs' i') < levels x"
proof (cases x)
  case NoNode
  with assms show ?thesis by (simp add: BTree_descend_def)
next
  case (BTreeNode ks cs leaf)
  have all: "\<forall>c \<in> set cs'. levels c < levels x"
  proof (cases "is_full t (js_get NoNode cs (child_index ks (length ks) v))")
    case None
    with assms BTreeNode show ?thesis by (simp add: BTree_descend_def Let_def)
  next
    case (Some b)
    show ?thesis
    proof (cases b)
      case False
      with Some assms BTreeNode have "cs' = cs" by (simp add: BTree_descend_def Let_def)
      with BTreeNode show ?thesis using levels_child by auto
    next
      case True
      with Some assms BTreeNode have
        "BTree_splitChild t (BTreeNode ks cs leaf) (child_index ks (length ks) v)
           = Some (BTreeNode ks' cs' leaf')"
        by (auto simp add: BTree_descend_def Let_def split: option.splits BTreeNode.splits)
      from BTree_splitChild_levels [OF this] BTreeNode show ?thesis by simp
    qed
  qed
  have "0 < levels x" using BTreeNode by simp
  with all show ?thesis using set_js_get [of NoNode cs' i'] by auto
qed

text \<open>
  \<open>_insertNonFull(x, value)\<close>. The recursive call works on the child object in place;
  the model writes its result back into the child array.
\<close>

function BTree_insertNonFull :: "nat \<Rightarrow> BTreeNode \<Rightarrow> int \<Rightarrow> BTreeNode option" where
  "BTree_insertNonFull t NoNode v = None"
| "BTree_insertNonFull t (BTreeNode ks cs leaf) v =
     (if leaf then Some (BTreeNode (leaf_shift ks (length ks) v) cs leaf)
      else
        (case BTree_descend t (BTreeNode ks cs leaf) v of
           None \<Rightarrow> None
         | Some (NoNode, i) \<Rightarrow> None
         | Some (BTreeNode ks' cs' leaf', i) \<Rightarrow>
             (case BTree_insertNonFull t (js_get NoNode cs' i) v of
                None \<Rightarrow> None
              | Some c \<Rightarrow> Some (BTreeNode ks' (cs'[i := c]) leaf'))))"
  by pat_completeness auto
termination
proof (relation "measure (\<lambda>(t, x, v). levels x)")
  show "wf (measure (\<lambda>(t, x, v). levels x))" by simp
next
  fix t ks cs leaf v x2 x y x21 x22 x23
  assume "BTree_descend t (BTreeNode ks cs leaf) v = Some x2" "(x, y) = x2"
         "x = BTreeNode x21 x22 x23"
  then have "BTree_descend t (BTreeNode ks cs leaf) v = Some (BTreeNode x21 x22 x23, y)"
    by simp
  from BTree_descend_levels [OF this]
  show "((t, js_get NoNode x22 y, v), (t, BTreeNode ks cs leaf, v))
          \<in> measure (\<lambda>(t, x, v). levels x)"
    by simp
qed

declare BTree_insertNonFull.simps [simp del]

text \<open>
  \<open>insert(value)\<close>: the first value makes a leaf root; a full root is put under a new
  root and split before the descent. No event is emitted on any path.
\<close>

definition BTree_insert :: "int \<Rightarrow> BTree \<Rightarrow> (BTree \<times> (int, BTree) event list) option" where
  "BTree_insert v s =
     (case root s of
        NoNode \<Rightarrow>
          Some (s\<lparr> root := BTreeNode [Some v] [] True, nodeCount := nodeCount s + 1 \<rparr>, [])
      | BTreeNode ks cs leaf \<Rightarrow>
          (case (if int (length ks) = 2 * int (degree s) - 1
                 then (case BTree_splitChild (degree s) (BTreeNode [] [root s] False) 0 of
                         None \<Rightarrow> None
                       | Some x \<Rightarrow> BTree_insertNonFull (degree s) x v)
                 else BTree_insertNonFull (degree s) (root s) v) of
             None \<Rightarrow> None
           | Some r \<Rightarrow> Some (s\<lparr> root := r, nodeCount := nodeCount s + 1 \<rparr>, [])))"

text \<open>\<open>delete(value)\<close>: a warning on the console, and \<open>false\<close>.\<close>

definition BTree_delete :: "'a \<Rightarrow> BTree \<Rightarrow> bool \<times> BTree \<times> (int, BTree) event list" where
  "BTree_delete v s = (False, s, [])"

fun BTree_inserts :: "int list \<Rightarrow> BTree \<Rightarrow> BTree option" where
  "BTree_inserts [] s = Some s"
| "BTree_inserts (v # vs) s =
     (case BTree_insert v s of None \<Rightarrow> None | Some (s', evs) \<Rightarrow> BTree_inserts vs s')"

section \<open>B+ Tree (trees/BPlusTree.js)\<close>

text \<open>The nodes are those of the B-Tree; \<open>bdegree\<close> is the field \<open>t\<close>.\<close>

record BPlusTree = "BTreeNode TreeBase" +
  bdegree :: nat

definition BPlusTree_new :: "nat \<Rightarrow> BPlusTree" where
  "BPlusTree_new t = \<lparr> root = NoNode, nodeCount = 0, bdegree = t \<rparr>"

text \<open>\<open>value === key\<close> is false for \<open>undefined\<close>.\<close>

fun js_eq :: "int \<Rightarrow> int option \<Rightarrow> bool" where
  "js_eq v None = False"
| "js_eq v (Some k) = (v = k)"

text \<open>
  The keys \<open>z\<close> ends up with when a leaf \<open>y\<close> is split. Three statements write them:
  the first loop copies \<open>y.keys[t .. 2t-2]\<close> to \<open>z.keys[0 .. t-2]\<close>; then \<open>y.keys\<close>
  is cut to \<open>t\<close> entries; then the second loop, \<open>for (j = 0; j < t; j++) if
  (pivotIndex + j < y.keys.length) z.keys[j] = y.keys[pivotIndex + j]\<close> with
  \<open>pivotIndex = t - 1\<close>, writes over \<open>z.keys\<close> from slot 0, reading the array that was
  just cut.
\<close>

definition leaf_keys_of_z :: "nat \<Rightarrow> int option list \<Rightarrow> int option list" where
  "leaf_keys_of_z t yk =
     (let zk = map (\<lambda>j. js_get None yk (j + t)) [0..<t - 1];
          yk1 = js_set_length None yk t;
          pivotIndex = t - 1
      in fold (\<lambda>j zk. if pivotIndex + j < length yk1
                         then js_set None zk j (js_get None yk1 (pivotIndex + j)) else zk)
              [0..<t] zk)"

text \<open>
  \<open>_splitChild(x, index)\<close>. Leaf branch: \<open>z\<close> gets the keys above, \<open>y.keys\<close> is cut
  a second time to \<open>t - 1\<close> entries, the parent's arrays are shifted, \<open>z\<close> is stored at
  \<open>index + 1\<close> and \<open>x.keys[index] = z.keys[0]\<close>. Inner branch: the statements of the
  B-Tree's \<open>_splitChild\<close>, ending in \<open>x.keys[index] = y.keys[t - 1]\<close> on the array
  already cut to \<open>t - 1\<close> entries.
\<close>

fun BPlus_splitChild :: "nat \<Rightarrow> BTreeNode \<Rightarrow> nat \<Rightarrow> BTreeNode option" where
  "BPlus_splitChild t NoNode index = None"
| "BPlus_splitChild t (BTreeNode xk xc xl) index =
     (case js_get NoNode xc index of
        NoNode \<Rightarrow> None
      | BTreeNode yk yc yl \<Rightarrow>
          if t = 0 then None
          else if yl then
            let zk = leaf_keys_of_z t yk;
                z = BTreeNode zk [] yl;
                yk' = js_set_length None (js_set_length None yk t) (t - 1);
                y' = BTreeNode yk' yc yl;
                xc1 = xc[index := y'];
                xc2 = js_set NoNode (shift_right NoNode xc1 (length xc1) (index + 1)) (index + 1) z;
                xk2 = js_set None (shift_right None xk (length xk) index) index (js_get None zk 0)
            in Some (BTreeNode xk2 xc2 xl)
          else
            let zk = map (\<lambda>j. js_get None yk (j + t)) [0..<t - 1];
                zc = map (\<lambda>j. js_get NoNode yc (j + t)) [0..<t];
                z = BTreeNode zk zc yl;
                yk' = js_set_length None yk (t - 1);
                yc' = js_set_length NoNode yc t;
                y' = BTreeNode yk' yc' yl;
                xc1 = xc[index := y'];
                xc2 = js_set NoNode (shift_right NoNode xc1 (length xc1) (index + 1)) (index + 1) z;
                xk2 = js_set None (shift_right None xk (length xk) index) index
                        (js_get None yk' (t - 1))
            in Some (BTreeNode xk2 xc2 xl))"

text \<open>
  The inner-node branch of \<open>_insertNonFull\<close> up to the recursive call; after a split
  the index moves right when \<open>value > x.keys[i]\<close> or \<open>value === x.keys[i]\<close>.
\<close>

definition BPlus_descend :: "nat \<Rightarrow> BTreeNode \<Rightarrow> int \<Rightarrow> (BTreeNode \<times> nat) option" where
  "BPlus_descend t x v =
     (case x of
        NoNode \<Rightarrow> None
      | BTreeNode ks cs leaf \<Rightarrow>
          let i = child_index ks (length ks) v in
          (case is_full t (js_get NoNode cs i) of
             None \<Rightarrow> None
           | Some False \<Rightarrow> Some (x, i)
           | Some True \<Rightarrow>
               (case BPlus_splitChild t x i of
                  None \<Rightarrow> None
                | Some NoNode \<Rightarrow> None
                | Some (BTreeNode ks' cs' leaf') \<Rightarrow>
                    Some (BTreeNode ks' cs' leaf',
                          if js_gt v (js_get None ks' i) then i + 1
                          else if js_eq v (js_get None ks' i) then i + 1
                          else i))))"

lemma BPlus_splitChild_levels:
  assumes "BPlus_splitChild t (BTreeNode xk xc xl) i = Some (BTreeNode ks' cs' leaf')"
  shows "\<forall>c \<in> set cs'. levels c < levels (BTreeNode xk xc xl)"
proof (cases "js_get NoNode xc i")
  case NoNode
  with assms show ?thesis by simp
next
  case (BTreeNode yk yc yl)
  then have yin: "BTreeNode yk yc yl \<in> set xc"
    by (metis BTreeNode.distinct(1) js_get_def nth_mem)
  have ylt: "levels (BTreeNode yk yc yl) < levels (BTreeNode xk xc xl)"
    by (rule levels_child [OF yin])
  have nlt: "levels NoNode < levels (BTreeNode xk xc xl)" by simp
  define z where "z = (if yl then BTreeNode (leaf_keys_of_z t yk) [] yl
      else BTreeNode (map (\<lambda>j. js_get None yk (j + t)) [0..<t - 1])
             (map (\<lambda>j. js_get NoNode yc (j + t)) [0..<t]) yl)"
  define y' where "y' = (if yl
      then BTreeNode (js_set_length None (js_set_length None yk t) (t - 1)) yc yl
      else BTreeNode (js_set_length None yk (t - 1)) (js_set_length NoNode yc t) yl)"
  have cs': "cs' = js_set NoNode (shift_right NoNode (xc[i := y']) (length (xc[i := y'])) (i + 1)) (i + 1) z"
    using assms BTreeNode by (auto simp add: Let_def z_def y'_def split: if_splits)
  have "set (map (\<lambda>j. js_get NoNode yc (j + t)) [0..<t]) \<subseteq> insert NoNode (set yc)"
    using set_js_get [of NoNode yc] by auto
  then have lz: "levels z \<le> levels (BTreeNode yk yc yl)"
    unfolding z_def by (auto intro!: levels_mono)
  have ly: "levels y' \<le> levels (BTreeNode yk yc yl)"
    unfolding y'_def using set_js_set_length [of NoNode yc t] by (auto intro!: levels_mono)
  have zlt: "levels z < levels (BTreeNode xk xc xl)" by (rule le_less_trans [OF lz ylt])
  have y'lt: "levels y' < levels (BTreeNode xk xc xl)" by (rule le_less_trans [OF ly ylt])
  have sub: "set cs' \<subseteq> insert z (insert NoNode (insert y' (set xc)))"
    unfolding cs'
    using set_js_set [of NoNode "shift_right NoNode (xc[i := y']) (length (xc[i := y'])) (i + 1)" "i + 1" z]
      set_shift_right [of NoNode "xc[i := y']" "length (xc[i := y'])" "i + 1"]
      set_update_subset_insert [of xc i y']
    by blast
  show ?thesis
  proof
    fix c assume "c \<in> set cs'"
    with sub have "c = z \<or> c = NoNode \<or> c = y' \<or> c \<in> set xc" by auto
    then show "levels c < levels (BTreeNode xk xc xl)"
      using zlt y'lt nlt levels_child [of c xc xk xl] by blast
  qed
qed

lemma BPlus_descend_levels:
  assumes "BPlus_descend t x v = Some (BTreeNode ks' cs' leaf', i')"
  shows "levels (js_get NoNode cs' i') < levels x"
proof (cases x)
  case NoNode
  with assms show ?thesis by (simp add: BPlus_descend_def)
next
  case (BTreeNode ks cs leaf)
  have all: "\<forall>c \<in> set cs'. levels c < levels x"
  proof (cases "is_full t (js_get NoNode cs (child_index ks (length ks) v))")
    case None
    with assms BTreeNode show ?thesis by (simp add: BPlus_descend_def Let_def)
  next
    case (Some b)
    show ?thesis
    proof (cases b)
      case False
      with Some assms BTreeNode have "cs' = cs" by (simp add: BPlus_descend_def Let_def)
      with BTreeNode show ?thesis using levels_child by auto
    next
      case True
      with Some assms BTreeNode have
        "BPlus_splitChild t (BTreeNode ks cs leaf) (child_index ks (length ks) v)
           = Some (BTreeNode ks' cs' leaf')"
        by (auto simp add: BPlus_descend_def Let_def split: option.splits BTreeNode.splits)
      from BPlus_splitChild_levels [OF this] BTreeNode show ?thesis by simp
    qed
  qed
  have "0 < levels x" using BTreeNode by simp
  with all show ?thesis using set_js_get [of NoNode cs' i'] by auto
qed

text \<open>\<open>_insertNonFull(x, value)\<close>.\<close>

function BPlus_insertNonFull :: "nat \<Rightarrow> BTreeNode \<Rightarrow> int \<Rightarrow> BTreeNode option" where
  "BPlus_insertNonFull t NoNode v = None"
| "BPlus_insertNonFull t (BTreeNode ks cs leaf) v =
     (if leaf then Some (BTreeNode (leaf_shift ks (length ks) v) cs leaf)
      else
        (case BPlus_descend t (BTreeNode ks cs leaf) v of
           None \<Rightarrow> None
         | Some (NoNode, i) \<Rightarrow> None
         | Some (BTreeNode ks' cs' leaf', i) \<Rightarrow>
             (case BPlus_insertNonFull t (js_get NoNode cs' i) v of
                None \<Rightarrow> None
              | Some c \<Rightarrow> Some (BTreeNode ks' (cs'[i := c]) leaf'))))"
  by pat_completeness auto
termination
proof (relation "measure (\<lambda>(t, x, v). levels x)")
  show "wf (measure (\<lambda>(t, x, v). levels x))" by simp
next
  fix t ks cs leaf v x2 x y x21 x22 x23
  assume "BPlus_descend t (BTreeNode ks cs leaf) v = Some x2" "(x, y) = x2"
         "x = BTreeNode x21 x22 x23"
  then have "BPlus_descend t (BTreeNode ks cs leaf) v = Some (BTreeNode x21 x22 x23, y)"
    by simp
  from BPlus_descend_levels [OF this]
  show "((t, js_get NoNode x22 y, v), (t, BTreeNode ks cs leaf, v))
          \<in> measure (\<lambda>(t, x, v). levels x)"
    by simp
qed

declare BPlus_insertNonFull.simps [simp del]

text \<open>\<open>insert(value)\<close>: as in the B-Tree, and without any event.\<close>

definition BPlus_insert ::
  "int \<Rightarrow> BPlusTree \<Rightarrow> (BPlusTree \<times> (int, BPlusTree) event list) option" where
  "BPlus_insert v s =
     (case root s of
        NoNode \<Rightarrow>
          Some (s\<lparr> root := BTreeNode [Some v] [] True, nodeCount := nodeCount s + 1 \<rparr>, [])
      | BTreeNode ks cs leaf \<Rightarrow>
          (case (if int (length ks) = 2 * int (bdegree s) - 1
                 then (case BPlus_splitChild (bdegree s) (BTreeNode [] [root s] False) 0 of
                         None \<Rightarrow> None
                       | Some x \<Rightarrow> BPlus_insertNonFull (bdegree s) x v)
                 else BPlus_insertNonFull (bdegree s) (root s) v) of
             None \<Rightarrow> None
           | Some r \<Rightarrow> Some (s\<lparr> root := r, nodeCount := nodeCount s + 1 \<rparr>, [])))"

text \<open>\<open>delete(value)\<close>: a warning on the console, and \<open>false\<close>.\<close>

definition BPlus_delete :: "'a \<Rightarrow> BPlusTree \<Rightarrow> bool \<times> BPlusTree \<times> (int, BPlusTree) event list" where
  "BPlus_delete v s = (False, s, [])"

fun BPlus_inserts :: "int list \<Rightarrow> BPlusTree \<Rightarrow> BPlusTree option" where
  "BPlus_inserts [] s = Some s"
| "BPlus_inserts (v # vs) s =
     (case BPlus_insert v s of None \<Rightarrow> None | Some (s', evs) \<Rightarrow> BPlus_inserts vs s')"

section \<open>Segment tree (trees/SegmentTree.js)\<close>

text \<open>
  The nodes are \<open>TreeNode\<close>s with two more fields, \<open>start\<close> and \<open>end\<close>. A value is a
  number or, where the code reads \<open>data\<close> past its end or adds to such a read, \<open>NaN\<close>.
\<close>

datatype SegNode =
    SegNull
  | SegNode (seg_left: SegNode) (seg_val: jsnum) (seg_start: nat) (seg_end: nat)
            (seg_right: SegNode)

record SegmentTree = "SegNode TreeBase" +
  seg_data :: "int list"

definition SegmentTree_new :: SegmentTree where
  "SegmentTree_new = \<lparr> root = SegNull, nodeCount = 0, seg_data = [] \<rparr>"

fun seg_value :: "SegNode \<Rightarrow> jsnum" where
  "seg_value SegNull = NaN"
| "seg_value (SegNode l v s e r) = v"

text \<open>
  \<open>_buildRecursive(start, end)\<close>. With \<open>start > end\<close> the recursion of the source does
  not end (the call fails on stack exhaustion); \<open>None\<close> stands for that.
\<close>

function buildRecursive :: "int list \<Rightarrow> nat \<Rightarrow> nat \<Rightarrow> SegNode option" where
  "buildRecursive d start en =
     (if start = en
        then Some (SegNode SegNull (if start < length d then Num (d ! start) else NaN)
                           start en SegNull)
      else if start > en then None
      else
        (let mid = (start + en) div 2 in
         case buildRecursive d start mid of
           None \<Rightarrow> None
         | Some l \<Rightarrow>
             (case buildRecursive d (mid + 1) en of
                None \<Rightarrow> None
              | Some r \<Rightarrow> Some (SegNode l (js_add (seg_value l) (seg_value r)) start en r))))"
  by pat_completeness auto
termination
  by (relation "measure (\<lambda>(d, start, en). en - start)") auto

declare buildRecursive.simps [simp del]

definition buildTree :: "int list \<Rightarrow> SegNode option" where
  "buildTree d = (if length d = 0 then Some SegNull else buildRecursive d 0 (length d - 1))"

text \<open>
  \<open>insert(value)\<close>, with the argument after \<open>parseInt\<close> as for the Fenwick tree: the
  value is appended, the counter set to the length, the tree rebuilt. No event is emitted.
\<close>

definition SegmentTree_insert ::
  "int option \<Rightarrow> SegmentTree \<Rightarrow> (SegmentTree \<times> (int, SegmentTree) event list) option" where
  "SegmentTree_insert v s =
     (case v of
        None \<Rightarrow> Some (s, [])
      | Some numVal \<Rightarrow>
          let d = seg_data s @ [numVal] in
          (case buildTree d of
             None \<Rightarrow> None
           | Some r \<Rightarrow>
               Some (s\<lparr> seg_data := d, nodeCount := int (length d), root := r \<rparr>, [])))"

text \<open>\<open>delete(value)\<close>: a warning on the console, and \<open>false\<close>.\<close>

definition SegmentTree_delete ::
  "'a \<Rightarrow> SegmentTree \<Rightarrow> bool \<times> SegmentTree \<times> (int, SegmentTree) event list" where
  "SegmentTree_delete v s = (False, s, [])"

section \<open>Trie (trees/Trie.js)\<close>

text \<open>
  A node has its label, the map from characters to children and the end-of-word flag.
  The map is a JavaScript \<open>Map\<close>: an association list in insertion order with unique
  keys (\<open>map_of\<close> is \<open>get\<close>, \<open>AList.update\<close> is \<open>set\<close>, \<open>AList.delete\<close> is
  \<open>delete\<close>). A word is a list of characters, each a code unit below 256;
  \<open>toLowerCase\<close> moves the capital letters among them (A to Z, and the Latin-1 capitals
  192 to 214 and 216 to 222) 32 places up and leaves the other characters as they are.
\<close>

datatype TrieNode =
  TrieNode (label: string) (tchildren: "(char \<times> TrieNode) list") (isEndOfWord: bool)

record Trie = "TrieNode option TreeBase" +
  wordCount :: int

definition Trie_new :: Trie where
  "Trie_new = \<lparr> root = Some (TrieNode ''ROOT'' [] False), nodeCount = 0, wordCount = 0 \<rparr>"

definition toLowerCase_char :: "char \<Rightarrow> char" where
  "toLowerCase_char c =
     (let n = (of_char c :: nat) in
      if 65 \<le> n \<and> n \<le> 90 then char_of (n + 32)
      else if 192 \<le> n \<and> n \<le> 214 then char_of (n + 32)
      else if 216 \<le> n \<and> n \<le> 222 then char_of (n + 32)
      else c)"

definition toLowerCase :: "string \<Rightarrow> string" where
  "toLowerCase w = map toLowerCase_char w"

text \<open>
  The argument of the public methods: a string, or a value of another type
  (\<open>typeof word !== 'string'\<close>).
\<close>

datatype jsarg = JString string | JOther

text \<open>
  The loop of \<open>insert\<close> and the statements after it, from the node \<open>currentNode\<close>
  onwards: a missing child is created and counted, and at the end of the word the flag is
  set and the word counted if it was not set. The result is the node as it is afterwards,
  the node counter and the word counter.
\<close>

fun trie_insert_from :: "TrieNode \<Rightarrow> string \<Rightarrow> int \<Rightarrow> int \<Rightarrow> TrieNode \<times> int \<times> int" where
  "trie_insert_from (TrieNode l cs e) [] nc wc =
     (if \<not> e then (TrieNode l cs True, nc, wc + 1) else (TrieNode l cs e, nc, wc))"
| "trie_insert_from (TrieNode l cs e) (c # w) nc wc =
     (case map_of cs c of
        None \<Rightarrow>
          (case trie_insert_from (TrieNode [c] [] False) w (nc + 1) wc of
             (child, nc', wc') \<Rightarrow> (TrieNode l (AList.update c child cs) e, nc', wc'))
      | Some child0 \<Rightarrow>
          (case trie_insert_from child0 w nc wc of
             (child, nc', wc') \<Rightarrow> (TrieNode l (AList.update c child cs) e, nc', wc')))"

text \<open>
  \<open>insert(word)\<close>: an argument that is no string or is empty is refused (an alert, no
  change, no event). Otherwise the walk starts at \<open>this.root\<close>; with a \<open>null\<close> root the
  first \<open>currentNode.children\<close> throws.
\<close>

definition Trie_insert :: "jsarg \<Rightarrow> Trie \<Rightarrow> (Trie \<times> (string, Trie) event list) option" where
  "Trie_insert a s =
     (case a of
        JOther \<Rightarrow> Some (s, [])
      | JString w0 \<Rightarrow>
          if length w0 = 0 then Some (s, [])
          else
            let word = toLowerCase w0 in
            (case root s of
               None \<Rightarrow> None
             | Some r \<Rightarrow>
                 (case trie_insert_from r word (nodeCount s) (wordCount s) of
                    (r', nc, wc) \<Rightarrow>
                      let s' = s\<lparr> root := Some r', nodeCount := nc, wordCount := wc \<rparr>
                      in Some (s', [NODE_INSERTED word s']))))"

text \<open>The walk shared by \<open>search\<close> and \<open>startsWith\<close>: the node the word leads to.\<close>

fun trie_find :: "TrieNode \<Rightarrow> string \<Rightarrow> TrieNode option" where
  "trie_find n [] = Some n"
| "trie_find (TrieNode l cs e) (c # w) =
     (case map_of cs c of None \<Rightarrow> None | Some child \<Rightarrow> trie_find child w)"

text \<open>
  \<open>search(word)\<close> returns the node or \<open>null\<close>, and emits \<open>NODE_SEARCHED\<close> unless the
  argument was refused.
\<close>

definition Trie_search ::
  "jsarg \<Rightarrow> Trie \<Rightarrow> (TrieNode option \<times> (string, Trie) event list) option" where
  "Trie_search a s =
     (case a of
        JOther \<Rightarrow> Some (None, [])
      | JString w0 \<Rightarrow>
          if length w0 = 0 then Some (None, [])
          else
            let word = toLowerCase w0 in
            (case root s of
               None \<Rightarrow> None
             | Some r \<Rightarrow>
                 (case trie_find r word of
                    None \<Rightarrow> Some (None, [NODE_SEARCHED word False s])
                  | Some n \<Rightarrow>
                      if isEndOfWord n then Some (Some n, [NODE_SEARCHED word True s])
                      else Some (None, [NODE_SEARCHED word False s]))))"

text \<open>
  \<open>startsWith(prefix)\<close> calls \<open>prefix.toLowerCase()\<close> first, which throws for a value
  that is no string. The loop reads \<open>currentNode.children\<close> once per character, so a
  \<open>null\<close> root throws unless the prefix is empty.
\<close>

definition Trie_startsWith :: "jsarg \<Rightarrow> Trie \<Rightarrow> bool option" where
  "Trie_startsWith a s =
     (case a of
        JOther \<Rightarrow> None
      | JString p0 \<Rightarrow>
          let prefix = toLowerCase p0 in
          if prefix = [] then Some True
          else
            (case root s of
               None \<Rightarrow> None
             | Some r \<Rightarrow> Some (trie_find r prefix \<noteq> None)))"

text \<open>
  \<open>_deleteWord(node, word, index)\<close>, with the rest of the word in place of the index.
  The result is the returned flag (whether the caller should remove this node), the node
  as it is afterwards, and the node counter.
\<close>

fun deleteWord :: "TrieNode \<Rightarrow> string \<Rightarrow> int \<Rightarrow> bool \<times> TrieNode \<times> int" where
  "deleteWord (TrieNode l cs e) [] nc =
     (if \<not> e then (False, TrieNode l cs e, nc)
      else (length cs = 0, TrieNode l cs False, nc))"
| "deleteWord (TrieNode l cs e) (c # w) nc =
     (case map_of cs c of
        None \<Rightarrow> (False, TrieNode l cs e, nc)
      | Some child0 \<Rightarrow>
          (case deleteWord child0 w nc of
             (shouldDeleteChild, child, nc') \<Rightarrow>
               if shouldDeleteChild
               then (let cs' = AList.delete c cs
                     in (length cs' = 0 \<and> \<not> e, TrieNode l cs' e, nc' - 1))
               else (False, TrieNode l (AList.update c child cs) e, nc')))"

text \<open>
  \<open>delete(word)\<close>: the flag of \<open>_deleteWord\<close> at the root is the result; when it is
  true the word counter goes down and \<open>NODE_DELETED\<close> is emitted.
\<close>

definition Trie_delete ::
  "jsarg \<Rightarrow> Trie \<Rightarrow> (bool \<times> Trie \<times> (string, Trie) event list) option" where
  "Trie_delete a s =
     (case a of
        JOther \<Rightarrow> Some (False, s, [])
      | JString w0 \<Rightarrow>
          if length w0 = 0 then Some (False, s, [])
          else
            let word = toLowerCase w0 in
            (case root s of
               None \<Rightarrow> None
             | Some r \<Rightarrow>
                 (case deleteWord r word (nodeCount s) of
                    (deleted, r', nc) \<Rightarrow>
                      if deleted then
                        (let s' = s\<lparr> root := Some r', nodeCount := nc,
                                      wordCount := wordCount s - 1 \<rparr>
                         in Some (True, s', [NODE_DELETED word s']))
                      else Some (False, s\<lparr> root := Some r', nodeCount := nc \<rparr>, []))))"

text \<open>
  \<open>TreeBase.clear()\<close> sets the root to \<open>null\<close> and the counter to 0 and emits
  \<open>TREE_RESET\<close>. \<open>Trie.clear()\<close> first installs a new root node and zeroes both
  counters, and then calls \<open>super.clear()\<close>.
\<close>

definition TreeBase_clear ::
  "('n option, 'z) TreeBase_scheme \<Rightarrow> ('n option, 'z) TreeBase_scheme" where
  "TreeBase_clear s = s\<lparr> root := None, nodeCount := 0 \<rparr>"

definition Trie_clear :: "Trie \<Rightarrow> Trie \<times> (string, Trie) event list" where
  "Trie_clear s =
     (let s1 = s\<lparr> root := Some (TrieNode ''ROOT'' [] False), nodeCount := 0, wordCount := 0 \<rparr>;
          s2 = TreeBase_clear s1
      in (s2, [TREE_RESET s2]))"

section \<open>Fenwick tree (trees/FenwickTree.js)\<close>

text \<open>
  \<open>tree\<close> is the 1-indexed BIT array (slot 0 is a dummy), \<open>data\<close> the appended values.
  The display forest built by \<open>buildVisualTree\<close> is recomputed from these two arrays on
  every insert and is not modelled; \<open>root\<close> is therefore of type \<open>unit\<close>.
\<close>

record FenwickTree = "unit TreeBase" +
  tree :: "int list"
  data :: "int list"

definition FenwickTree_new :: FenwickTree where
  "FenwickTree_new = \<lparr> root = (), nodeCount = 0, tree = [0], data = [] \<rparr>"

text \<open>\<open>index & (-index)\<close>, added to or subtracted from the index.\<close>

definition lowbit :: "nat \<Rightarrow> int" where
  "lowbit i = js_bitand (int i) (- int i)"

text \<open>
  \<open>_updateBIT(index, delta)\<close>: \<open>while (index < tree.length) { tree[index] += delta;
  index += index & (-index) }\<close>. With index 0 the loop never ends, so the function is
  partial: \<open>None\<close> stands for a call that does not return.
\<close>

partial_function (option) updateBIT :: "int list \<Rightarrow> nat \<Rightarrow> int \<Rightarrow> int list option" where
  "updateBIT t index delta =
     (if index < length t
      then updateBIT (t[index := t ! index + delta]) (nat (int index + lowbit index)) delta
      else Some t)"

declare updateBIT.simps [code]

text \<open>
  \<open>insert(value)\<close>. The argument is modelled after \<open>parseInt\<close>: \<open>None\<close> is the
  \<open>NaN\<close> case, which warns and returns without a change. No path emits an event.
\<close>

definition FenwickTree_insert ::
  "int option \<Rightarrow> FenwickTree \<Rightarrow> (FenwickTree \<times> (int, FenwickTree) event list) option" where
  "FenwickTree_insert v s =
     (case v of
        None \<Rightarrow> Some (s, [])
      | Some numVal \<Rightarrow>
          let d = data s @ [numVal];
              index = length d;
              t = (if length (tree s) \<le> index then tree s @ [0] else tree s)
          in (case updateBIT t index numVal of
                None \<Rightarrow> None
              | Some t' \<Rightarrow>
                  Some (s\<lparr> data := d, tree := t', nodeCount := nodeCount s + 1 \<rparr>, [])))"

text \<open>\<open>delete(value)\<close>: a warning on the console, and \<open>false\<close>.\<close>

definition FenwickTree_delete ::
  "'a \<Rightarrow> FenwickTree \<Rightarrow> bool \<times> FenwickTree \<times> (int, FenwickTree) event list" where
  "FenwickTree_delete v s = (False, s, [])"

text \<open>
  \<open>query(index)\<close>: \<open>while (i > 0) { sum += tree[i]; i -= i & (-i) }\<close>. A read past the
  end of \<open>tree\<close> gives \<open>undefined\<close> and turns the sum into \<open>NaN\<close>.
\<close>

definition tree_at :: "int list \<Rightarrow> nat \<Rightarrow> jsnum" where
  "tree_at t i = (if i < length t then Num (t ! i) else NaN)"

partial_function (option) query_loop :: "int list \<Rightarrow> jsnum \<Rightarrow> nat \<Rightarrow> jsnum option" where
  "query_loop t sm i =
     (if 0 < i then query_loop t (js_add sm (tree_at t i)) (nat (int i - lowbit i))
      else Some sm)"

declare query_loop.simps [code]

definition query :: "FenwickTree \<Rightarrow> nat \<Rightarrow> jsnum option" where
  "query s index = query_loop (tree s) (Num 0) index"

text \<open>A sequence of inserts, starting from a new tree.\<close>

fun FenwickTree_inserts :: "int list \<Rightarrow> FenwickTree \<Rightarrow> FenwickTree option" where
  "FenwickTree_inserts [] s = Some s"
| "FenwickTree_inserts (a # as) s =
     (case FenwickTree_insert (Some a) s of
        None \<Rightarrow> None
      | Some (s', evs) \<Rightarrow> FenwickTree_inserts as s')"

chapter \<open>Properties of the operations\<close>

section \<open>Min-heap: the heap property\<close>

text \<open>The min-heap property of the spec, on the backing array.\<close>

definition heap_property :: "int list \<Rightarrow> bool" where
  "heap_property xs \<longleftrightarrow>
     (\<forall>i \<in> set [0..<length xs].
        (2 * i + 1 < length xs \<longrightarrow> xs ! i \<le> xs ! (2 * i + 1)) \<and>
        (2 * i + 2 < length xs \<longrightarrow> xs ! i \<le> xs ! (2 * i + 2)))"

subsection \<open>The heap property is kept by both operations\<close>

text \<open>
  The proofs use the parent form of the property: every slot but the first is at least
  its parent \<open>floor((j - 1) / 2)\<close>. While an element sifts up from slot \<open>k\<close>, the
  property may fail between \<open>k\<close> and its parent only (\<open>up_ok\<close>); while it sifts down,
  between \<open>k\<close> and its children only (\<open>down_ok\<close>).
\<close>

definition par :: "nat \<Rightarrow> nat" where
  "par j = (j - 1) div 2"

definition heap_parent :: "int list \<Rightarrow> bool" where
  "heap_parent xs \<longleftrightarrow> (\<forall>j. 0 < j \<and> j < length xs \<longrightarrow> xs ! par j \<le> xs ! j)"

lemma par_left [simp]: "par (Suc (2 * i)) = i" by (simp add: par_def)
lemma par_right [simp]: "par (Suc (Suc (2 * i))) = i" by (simp add: par_def)
lemma par_less: "0 < j \<Longrightarrow> par j < j" by (simp add: par_def)
lemma par_cases: "0 < j \<Longrightarrow> j = 2 * par j + 1 \<or> j = 2 * par j + 2"
  by (simp add: par_def) arith

lemma heap_property_iff: "heap_property xs \<longleftrightarrow> heap_parent xs"
proof
  assume h: "heap_property xs"
  show "heap_parent xs"
    unfolding heap_parent_def
  proof (intro allI impI)
    fix j assume j: "0 < j \<and> j < length xs"
    then have "par j \<in> set [0..<length xs]" using par_less [of j] by simp
    with h have
      "(2 * par j + 1 < length xs \<longrightarrow> xs ! par j \<le> xs ! (2 * par j + 1)) \<and>
       (2 * par j + 2 < length xs \<longrightarrow> xs ! par j \<le> xs ! (2 * par j + 2))"
      unfolding heap_property_def by blast
    with par_cases [of j] j show "xs ! par j \<le> xs ! j" by auto
  qed
next
  assume h: "heap_parent xs"
  show "heap_property xs"
    unfolding heap_property_def
  proof (intro ballI conjI impI)
    fix i assume "2 * i + 1 < length xs"
    with h have "xs ! par (Suc (2 * i)) \<le> xs ! (Suc (2 * i))"
      unfolding heap_parent_def by (metis Suc_eq_plus1 zero_less_Suc)
    then show "xs ! i \<le> xs ! (2 * i + 1)" by simp
  next
    fix i assume "2 * i + 2 < length xs"
    with h have "xs ! par (Suc (Suc (2 * i))) \<le> xs ! (Suc (Suc (2 * i)))"
      unfolding heap_parent_def by (metis add_2_eq_Suc' zero_less_Suc)
    then show "xs ! i \<le> xs ! (2 * i + 2)" by simp
  qed
qed

definition up_ok :: "int list \<Rightarrow> nat \<Rightarrow> bool" where
  "up_ok xs k \<longleftrightarrow>
     (\<forall>j. 0 < j \<and> j < length xs \<and> j \<noteq> k \<longrightarrow> xs ! par j \<le> xs ! j) \<and>
     (\<forall>j. 0 < j \<and> j < length xs \<and> par j = k \<and> 0 < k \<longrightarrow> xs ! par k \<le> xs ! j)"

definition down_ok :: "int list \<Rightarrow> nat \<Rightarrow> bool" where
  "down_ok xs k \<longleftrightarrow>
     (\<forall>j. 0 < j \<and> j < length xs \<and> par j \<noteq> k \<longrightarrow> xs ! par j \<le> xs ! j) \<and>
     (\<forall>j. 0 < j \<and> j < length xs \<and> par j = k \<and> 0 < k \<longrightarrow> xs ! par k \<le> xs ! j)"

lemma length_heapifyUp [simp]: "length (heapifyUp xs k) = length xs"
  by (induction xs k rule: heapifyUp.induct) (subst heapifyUp.simps, simp add: Let_def)

lemma length_heapifyDown [simp]: "length (heapifyDown xs k) = length xs"
  by (induction xs k rule: heapifyDown.induct) (subst heapifyDown.simps, simp add: Let_def)

lemma mset_heapifyUp [simp]: "mset (heapifyUp xs k) = mset xs"
proof (induction xs k rule: heapifyUp.induct)
  case (1 xs index)
  show ?case
  proof (cases "index \<noteq> 0 \<and> index < length xs \<and> xs ! index < xs ! ((index - 1) div 2)")
    case True
    then have p: "(index - 1) div 2 < length xs" by arith
    from True p show ?thesis
      using 1 [OF _ refl] by (subst heapifyUp.simps) (simp add: Let_def mset_swap)
  next
    case False
    then show ?thesis by (subst heapifyUp.simps) (auto simp add: Let_def)
  qed
qed

lemma mset_heapifyDown [simp]: "mset (heapifyDown xs k) = mset xs"
proof (induction xs k rule: heapifyDown.induct)
  case (1 xs index)
  show ?case
  proof (cases "smallest_of xs index = index")
    case True
    then show ?thesis by (subst heapifyDown.simps) (simp add: Let_def)
  next
    case False
    with smallest_of_cases [of xs index]
    have "smallest_of xs index < length xs" "index < length xs" by auto
    with False show ?thesis
      using 1 [OF refl] by (subst heapifyDown.simps) (simp add: Let_def mset_swap)
  qed
qed

lemma up_step:
  assumes ok: "up_ok xs k" and k: "0 < k" "k < length xs" and lt: "xs ! k < xs ! par k"
  shows "up_ok (xs[k := xs ! par k, par k := xs ! k]) (par k)"
proof -
  let ?p = "par k"
  let ?ys = "xs[k := xs ! ?p, ?p := xs ! k]"
  have pk: "?p < k" using k by (simp add: par_less)
  have ys: "\<And>j. j < length xs \<Longrightarrow>
      ?ys ! j = (if j = ?p then xs ! k else if j = k then xs ! ?p else xs ! j)"
    using pk k by (simp add: nth_list_update)
  from ok have A: "\<And>j. 0 < j \<Longrightarrow> j < length xs \<Longrightarrow> j \<noteq> k \<Longrightarrow> xs ! par j \<le> xs ! j"
    and B: "\<And>j. 0 < j \<Longrightarrow> j < length xs \<Longrightarrow> par j = k \<Longrightarrow> xs ! ?p \<le> xs ! j"
    using k unfolding up_ok_def by auto
  show ?thesis
    unfolding up_ok_def
  proof (intro conjI allI impI)
    fix j assume j: "0 < j \<and> j < length ?ys \<and> j \<noteq> ?p"
    then have j': "0 < j" "j < length xs" "j \<noteq> ?p" by auto
    have pj: "par j < length xs" "par j < j" using j' par_less [of j] by auto
    show "?ys ! par j \<le> ?ys ! j"
    proof (cases "j = k")
      case True
      then show ?thesis using ys [of k] ys [of ?p] k pk lt by simp
    next
      case False
      then have yj: "?ys ! j = xs ! j" using ys [OF j'(2)] j' by simp
      show ?thesis
      proof (cases "par j = k")
        case True
        then show ?thesis using ys [OF pj(1)] yj B [OF j'(1,2)] pk by simp
      next
        case nk: False
        show ?thesis
        proof (cases "par j = ?p")
          case True
          then show ?thesis using ys [OF pj(1)] yj A [OF j'(1,2) False] lt by simp
        next
          case False
          then show ?thesis using ys [OF pj(1)] yj A [OF j'(1,2) \<open>j \<noteq> k\<close>] nk by simp
        qed
      qed
    qed
  next
    fix j assume j: "0 < j \<and> j < length ?ys \<and> par j = ?p \<and> 0 < ?p"
    then have j': "0 < j" "j < length xs" "par j = ?p" "0 < ?p" by auto
    have pp: "par ?p < ?p" using j' by (simp add: par_less)
    have ypp: "?ys ! par ?p = xs ! par ?p" using ys [of "par ?p"] pp pk k by simp
    have App: "xs ! par ?p \<le> xs ! ?p" using A [of ?p] j' pk k by simp
    show "?ys ! par ?p \<le> ?ys ! j"
    proof (cases "j = k")
      case True
      then show ?thesis using ys [of k] k pk ypp App by simp
    next
      case False
      have "j \<noteq> ?p" using j' par_less [of j] by auto
      then have "?ys ! j = xs ! j" using ys [OF j'(2)] False by simp
      moreover have "xs ! ?p \<le> xs ! j" using A [OF j'(1,2) False] j' by simp
      ultimately show ?thesis using ypp App by simp
    qed
  qed
qed

lemma up_done:
  assumes ok: "up_ok xs k" and stop: "k = 0 \<or> \<not> (k < length xs \<and> xs ! k < xs ! par k)"
  shows "heap_parent xs"
  unfolding heap_parent_def
proof (intro allI impI)
  fix j assume j: "0 < j \<and> j < length xs"
  show "xs ! par j \<le> xs ! j"
  proof (cases "j = k")
    case True
    with stop j show ?thesis by auto
  next
    case False
    with ok j show ?thesis unfolding up_ok_def by blast
  qed
qed

lemma heapifyUp_heap:
  "up_ok xs k \<Longrightarrow> k < length xs \<Longrightarrow> heap_parent (heapifyUp xs k)"
proof (induction xs k rule: heapifyUp.induct)
  case (1 xs index)
  show ?case
  proof (cases "index \<noteq> 0 \<and> index < length xs \<and> xs ! index < xs ! par index")
    case True
    then have step: "up_ok (xs[index := xs ! par index, par index := xs ! index]) (par index)"
      using up_step [OF "1.prems"(1)] by simp
    have "par index < length xs" using True par_less [of index] by simp
    with True step show ?thesis
      using "1.IH" [OF _ refl] by (subst heapifyUp.simps) (simp add: Let_def par_def)
  next
    case False
    then have "heap_parent xs" using up_done [OF "1.prems"(1), of ] by auto
    with False show ?thesis by (subst heapifyUp.simps) (auto simp add: Let_def par_def)
  qed
qed

lemma smallest_of_le:
  "xs ! smallest_of xs k \<le> xs ! k"
  "2 * k + 1 < length xs \<Longrightarrow> xs ! smallest_of xs k \<le> xs ! (2 * k + 1)"
  "2 * k + 2 < length xs \<Longrightarrow> xs ! smallest_of xs k \<le> xs ! (2 * k + 2)"
  by (auto simp add: smallest_of_def Let_def)

lemma down_done:
  assumes ok: "down_ok xs k" and stop: "smallest_of xs k = k"
  shows "heap_parent xs"
  unfolding heap_parent_def
proof (intro allI impI)
  fix j assume j: "0 < j \<and> j < length xs"
  show "xs ! par j \<le> xs ! j"
  proof (cases "par j = k")
    case True
    with par_cases [of j] j have "j = 2 * k + 1 \<or> j = 2 * k + 2" by simp
    with smallest_of_le(2,3) [of k xs] j stop True show ?thesis by auto
  next
    case False
    with ok j show ?thesis unfolding down_ok_def by blast
  qed
qed

lemma down_step:
  assumes ok: "down_ok xs k" and ne: "smallest_of xs k \<noteq> k"
  shows "down_ok (xs[k := xs ! smallest_of xs k, smallest_of xs k := xs ! k]) (smallest_of xs k)"
proof -
  let ?s = "smallest_of xs k"
  let ?ys = "xs[k := xs ! ?s, ?s := xs ! k]"
  from smallest_of_cases [of xs k] ne
  have s: "?s < length xs" "k < ?s" "par ?s = k" "k < length xs" by auto
  have ys: "\<And>j. j < length xs \<Longrightarrow>
      ?ys ! j = (if j = ?s then xs ! k else if j = k then xs ! ?s else xs ! j)"
    using s by (simp add: nth_list_update)
  from ok have A: "\<And>j. 0 < j \<Longrightarrow> j < length xs \<Longrightarrow> par j \<noteq> k \<Longrightarrow> xs ! par j \<le> xs ! j"
    and B: "\<And>j. 0 < j \<Longrightarrow> j < length xs \<Longrightarrow> par j = k \<Longrightarrow> 0 < k \<Longrightarrow> xs ! par k \<le> xs ! j"
    unfolding down_ok_def by auto
  have C: "\<And>j. 0 < j \<Longrightarrow> j < length xs \<Longrightarrow> par j = k \<Longrightarrow> xs ! ?s \<le> xs ! j"
  proof -
    fix j assume j: "0 < j" "j < length xs" "par j = k"
    with par_cases [of j] have "j = 2 * k + 1 \<or> j = 2 * k + 2" by simp
    with smallest_of_le(2,3) [of k xs] j show "xs ! ?s \<le> xs ! j" by auto
  qed
  show ?thesis
    unfolding down_ok_def
  proof (intro conjI allI impI)
    fix j assume j: "0 < j \<and> j < length ?ys \<and> par j \<noteq> ?s"
    then have j': "0 < j" "j < length xs" "par j \<noteq> ?s" by auto
    have pj: "par j < length xs" "par j < j" using j' par_less [of j] by auto
    show "?ys ! par j \<le> ?ys ! j"
    proof (cases "par j = k")
      case True
      then have "j \<noteq> k" using pj by auto
      then show ?thesis
        using ys [OF j'(2)] ys [OF s(4)] True s C [OF j'(1,2) True] smallest_of_le(1) [of xs k]
        by auto
    next
      case False
      then have js: "j \<noteq> ?s" using s by auto
      have yp: "?ys ! par j = xs ! par j" using ys [OF pj(1)] False j' by simp
      show ?thesis
      proof (cases "j = k")
        case True
        then have "0 < k" using j' by simp
        then have "xs ! par k \<le> xs ! ?s" using B [of ?s] s by simp
        then show ?thesis using yp ys [OF s(4)] True s by simp
      next
        case nk: False
        then show ?thesis using yp ys [OF j'(2)] js A [OF j'(1,2) False] by simp
      qed
    qed
  next
    fix j assume j: "0 < j \<and> j < length ?ys \<and> par j = ?s \<and> 0 < ?s"
    then have j': "0 < j" "j < length xs" "par j = ?s" by auto
    have "?s < j" using j' par_less [of j] by simp
    then have "j \<noteq> ?s" "j \<noteq> k" using s by auto
    then have yj: "?ys ! j = xs ! j" using ys [OF j'(2)] by simp
    have "par j \<noteq> k" using j' s by simp
    then have "xs ! ?s \<le> xs ! j" using A [OF j'(1,2)] j' by simp
    then show "?ys ! par ?s \<le> ?ys ! j" using yj ys [OF s(4)] s by simp
  qed
qed

lemma heapifyDown_heap:
  "down_ok xs k \<Longrightarrow> heap_parent (heapifyDown xs k)"
proof (induction xs k rule: heapifyDown.induct)
  case (1 xs index)
  show ?case
  proof (cases "smallest_of xs index = index")
    case True
    then show ?thesis
      using down_done [OF "1.prems" True] by (subst heapifyDown.simps) (simp add: Let_def)
  next
    case False
    then show ?thesis
      using "1.IH" [OF refl False down_step [OF "1.prems" False]]
      by (subst heapifyDown.simps) (simp add: Let_def)
  qed
qed

lemma heap_parent_append:
  assumes "heap_parent xs"
  shows "up_ok (xs @ [v]) (length xs)"
  unfolding up_ok_def
proof (intro conjI allI impI)
  fix j assume j: "0 < j \<and> j < length (xs @ [v]) \<and> j \<noteq> length xs"
  then have "j < length xs" "par j < length xs" using par_less [of j] by auto
  with assms j show "(xs @ [v]) ! par j \<le> (xs @ [v]) ! j"
    unfolding heap_parent_def by (simp add: nth_append)
next
  fix j assume j: "0 < j \<and> j < length (xs @ [v]) \<and> par j = length xs \<and> 0 < length xs"
  then have False using par_less [of j] by auto
  then show "(xs @ [v]) ! par (length xs) \<le> (xs @ [v]) ! j" ..
qed

lemma heap_parent_replace_root:
  assumes "heap_parent xs"
  shows "down_ok ((butlast xs)[0 := v]) 0"
  unfolding down_ok_def
proof (intro conjI allI impI)
  fix j assume j: "0 < j \<and> j < length ((butlast xs)[0 := v]) \<and> par j \<noteq> 0"
  then have "j < length xs" "j < length (butlast xs)" "par j < length (butlast xs)" "par j \<noteq> 0"
    using par_less [of j] by auto
  with assms j show "(butlast xs)[0 := v] ! par j \<le> (butlast xs)[0 := v] ! j"
    unfolding heap_parent_def by (simp add: nth_butlast)
next
  fix j assume "0 < j \<and> j < length ((butlast xs)[0 := v]) \<and> par j = 0 \<and> (0::nat) < 0"
  then show "(butlast xs)[0 := v] ! par 0 \<le> (butlast xs)[0 := v] ! j" by simp
qed

lemma heap_parent_root_least:
  "heap_parent xs \<Longrightarrow> j < length xs \<Longrightarrow> xs ! 0 \<le> xs ! j"
proof (induction j rule: less_induct)
  case (less j)
  show ?case
  proof (cases "j = 0")
    case True then show ?thesis by simp
  next
    case False
    then have "par j < j" by (simp add: par_less)
    moreover have "xs ! par j \<le> xs ! j"
      using less.prems False unfolding heap_parent_def by simp
    ultimately show ?thesis using less.IH [of "par j"] less.prems by simp
  qed
qed

lemma MinHeap_insert_array:
  "array (fst (MinHeap_insert v s)) = heapifyUp (array s @ [v]) (length (array s))"
  by (simp add: MinHeap_insert_def Let_def)

lemma MinHeap_delete_array:
  "array (fst (snd (MinHeap_delete s))) =
     (if array s = [] then []
      else if butlast (array s) = [] then []
      else heapifyDown ((butlast (array s))[0 := last (array s)]) 0)"
  by (auto simp add: MinHeap_delete_def Let_def)

lemma heap_insert_property:
  "heap_property (array s) \<Longrightarrow> heap_property (array (fst (MinHeap_insert v s)))"
  by (simp add: MinHeap_insert_array heap_property_iff heapifyUp_heap heap_parent_append)

lemma heap_property_Nil [simp]: "heap_property []"
  by (simp add: heap_property_def)

lemma heap_delete_property:
  "heap_property (array s) \<Longrightarrow> heap_property (array (fst (snd (MinHeap_delete s))))"
  using heap_property_Nil
  by (simp add: MinHeap_delete_array heap_property_iff heapifyDown_heap heap_parent_replace_root)

lemma heap_step_property:
  "heap_property (array s) \<Longrightarrow> heap_property (array (heap_step s x))"
  by (cases x) (simp_all add: heap_insert_property heap_delete_property)

lemma heap_foldl_property:
  "heap_property (array s) \<Longrightarrow> heap_property (array (foldl heap_step s ops))"
  by (induction ops arbitrary: s) (simp_all add: heap_step_property)

lemma heap_run_property: "heap_property (array (heap_run ops))"
  by (simp add: heap_run_def heap_foldl_property MinHeap_new_def)

lemma heap_root_Min:
  assumes "heap_property xs" "xs \<noteq> []"
  shows "xs ! 0 = Min (set xs)"
proof -
  have "\<forall>y \<in> set xs. xs ! 0 \<le> y"
    using assms heap_parent_root_least [of xs] by (auto simp add: heap_property_iff in_set_conv_nth)
  moreover have "xs ! 0 \<in> set xs" using assms by simp
  ultimately show ?thesis by (simp add: Min_eqI [symmetric])
qed

lemma mset_pop_root:
  assumes "xs \<noteq> []" "butlast xs \<noteq> []"
  shows "mset ((butlast xs)[0 := last xs]) = mset xs - {#xs ! 0#}"
proof -
  from assms obtain x ys where xs: "xs = x # ys" "ys \<noteq> []"
    by (cases xs) (auto split: if_splits)
  then have "(butlast xs)[0 := last xs] = last ys # butlast ys" by simp
  moreover have "mset (last ys # butlast ys) = mset ys"
    using xs(2) by (metis append_butlast_last_id mset.simps(2) mset_append union_mset_add_mset_right add.right_neutral mset.simps(1) add.commute)
  ultimately show ?thesis using xs by simp
qed

lemma MinHeap_delete_nonempty:
  assumes "array s \<noteq> []"
  shows "\<exists>s'. MinHeap_delete s = (True, s', [NODE_DELETED (array s ! 0) s']) \<and>
              mset (array s') = mset (array s) - {#array s ! 0#}"
proof (cases "butlast (array s) = []")
  case True
  with assms have "array s = [array s ! 0]" by (cases "array s") (auto split: if_splits)
  then have "mset (array s) - {#array s ! 0#} = {#}" by (metis mset.simps add_mset_remove_trivial)
  with True assms show ?thesis by (simp add: MinHeap_delete_def Let_def)
next
  case False
  with assms show ?thesis by (simp add: MinHeap_delete_def Let_def mset_pop_root)
qed

lemma deleted_values_sort:
  "heap_property (array s) \<Longrightarrow> n = length (array s) \<Longrightarrow> deleted_values n s = sort (array s)"
proof (induction n arbitrary: s)
  case 0
  then show ?case by simp
next
  case (Suc n)
  then have ne: "array s \<noteq> []" by auto
  from MinHeap_delete_nonempty [OF ne] obtain s' where
    d: "MinHeap_delete s = (True, s', [NODE_DELETED (array s ! 0) s'])"
    and m: "mset (array s') = mset (array s) - {#array s ! 0#}" by blast
  have s': "array s' = array (fst (snd (MinHeap_delete s)))" using d by simp
  have hp: "heap_property (array s')" using heap_delete_property [OF Suc.prems(1)] s' by simp
  have mem: "array s ! 0 \<in># mset (array s)" using ne by simp
  have len: "n = length (array s')"
    using m Suc.prems(2) mem by (metis size_mset size_Diff_singleton diff_Suc_1)
  have dv: "deleted_values (Suc n) s = array s ! 0 # sort (array s')"
    using d Suc.IH [OF hp len] by simp
  have least: "\<forall>y \<in> set (array s'). array s ! 0 \<le> y"
  proof
    fix y assume "y \<in> set (array s')"
    then have "y \<in># mset (array s) - {#array s ! 0#}" using m by (metis set_mset_mset)
    then have "y \<in> set (array s)" by (metis in_diffD set_mset_mset)
    then show "array s ! 0 \<le> y"
      using heap_root_Min [OF Suc.prems(1) ne] by simp
  qed
  have "sort (array s) = array s ! 0 # sort (array s')"
  proof (rule properties_for_sort)
    show "mset (array s ! 0 # sort (array s')) = mset (array s)"
      using m mem by simp
    show "sorted (array s ! 0 # sort (array s'))" using least by simp
  qed
  then show ?case using dv by simp
qed

lemma heap_inserts_mset:
  "mset (array (foldl heap_step s (map HInsert vs))) = mset (array s) + mset vs"
  by (induction vs arbitrary: s) (simp_all add: MinHeap_insert_array)

section \<open>Order and balance of the binary trees\<close>

text \<open>
  \<open>bst\<close>: the in-order sequence is strictly increasing (the trees hold no duplicates).
\<close>

definition bst :: "TreeNode \<Rightarrow> bool" where
  "bst t \<longleftrightarrow> sorted_wrt (<) (getValues t)"

definition values_of :: "TreeNode \<Rightarrow> int set" where
  "values_of t = set (getValues t)"

lemma bst_Null [simp]: "bst Null" by (simp add: bst_def)

lemma values_of_simps [simp]:
  "values_of Null = {}"
  "values_of (Node l v h c r) = values_of l \<union> {v} \<union> values_of r"
  by (auto simp add: values_of_def)

lemma bst_Node [simp]:
  "bst (Node l v h c r) \<longleftrightarrow>
     bst l \<and> bst r \<and> (\<forall>x \<in> values_of l. x < v) \<and> (\<forall>y \<in> values_of r. v < y)"
  by (fastforce simp add: bst_def values_of_def sorted_wrt_append)

lemma bst_sorted: "bst t \<Longrightarrow> sorted (getValues t)"
  unfolding bst_def by (rule sorted_wrt_mono_rel [where P = "(<)"]) auto

lemma bst_new [simp]: "bst (new_TreeNode v)" "values_of (new_TreeNode v) = {v}"
  by (simp_all add: new_TreeNode_def)

subsection \<open>Inserting into the BST keeps the order\<close>

lemma BST_insertNode_bst:
  "t \<noteq> Null \<Longrightarrow> bst t \<Longrightarrow>
   \<exists>t' n'. BST_insertNode t v n = Some (t', n') \<and> t' \<noteq> Null \<and> bst t' \<and>
           values_of t' = insert v (values_of t)"
proof (induction t)
  case Null
  then show ?case by simp
next
  case (Node l x h c r)
  show ?case
  proof (cases "v < x")
    case True
    show ?thesis
    proof (cases "l = Null")
      case lN: True
      with True Node.prems show ?thesis by auto
    next
      case False
      with Node.IH(1) [OF False] Node.prems obtain l' n' where
        "BST_insertNode l v n = Some (l', n')" "bst l'" "values_of l' = insert v (values_of l)"
        by auto
      with True False Node.prems show ?thesis by auto
    qed
  next
    case nlt: False
    show ?thesis
    proof (cases "v > x")
      case True
      show ?thesis
      proof (cases "r = Null")
        case rN: True
        with True nlt Node.prems show ?thesis by auto
      next
        case False
        with Node.IH(2) [OF False] Node.prems obtain r' n' where
          "BST_insertNode r v n = Some (r', n')" "bst r'" "values_of r' = insert v (values_of r)"
          by auto
        with True nlt False Node.prems show ?thesis by auto
      qed
    next
      case False
      with nlt have "v = x" by simp
      with Node.prems show ?thesis by auto
    qed
  qed
qed

lemma BST_insert_bst:
  assumes "bst (root s)"
  shows "\<exists>s' evs. BST_insert v s = Some (s', evs) \<and> bst (root s') \<and>
           values_of (root s') = insert v (values_of (root s))"
proof (cases "root s = Null")
  case True
  then show ?thesis by (simp add: BST_insert_def Let_def)
next
  case False
  from BST_insertNode_bst [OF False assms, of v "nodeCount s"]
  show ?thesis using False by (auto simp add: BST_insert_def Let_def)
qed

lemma BST_inserts_bst:
  "bst (root s) \<Longrightarrow>
   \<exists>s'. BST_inserts vs s = Some s' \<and> bst (root s') \<and>
        values_of (root s') = values_of (root s) \<union> set vs"
proof (induction vs arbitrary: s)
  case Nil
  then show ?case by simp
next
  case (Cons v vs)
  from BST_insert_bst [OF Cons.prems, of v] obtain s1 evs where
    s1: "BST_insert v s = Some (s1, evs)" "bst (root s1)"
        "values_of (root s1) = insert v (values_of (root s))" by blast
  from Cons.IH [OF s1(2)] s1(1,3) show ?case by auto
qed

subsection \<open>Inserting into the Red-Black tree keeps the order\<close>

text \<open>Colour flips and rotations leave the in-order sequence as it is.\<close>

lemma getValues_setBlack [simp]: "getValues (setBlack t) = getValues t"
  by (cases t) simp_all

lemma fix_flip_Node:
  "\<exists>l' c' r'. fix_flip (Node l v h c r) = Some (Node l' v h c' r') \<and>
     getValues (Node l' v h c' r') = getValues (Node l v h c r)"
  by simp

lemma fix_left_Node:
  "\<exists>t'. fix_left (Node l v h c r) = Some t' \<and> t' \<noteq> Null \<and>
     getValues t' = getValues (Node l v h c r)"
  by (cases r) auto

lemma fix_right_Node:
  "\<exists>t'. fix_right (Node l v h c r) = Some t' \<and> t' \<noteq> Null \<and>
     getValues t' = getValues (Node l v h c r)"
  by (cases l) auto

lemma fixInsertion_Node:
  "\<exists>t'. fixInsertion (Node l v h c r) = Some t' \<and> t' \<noteq> Null \<and>
     getValues t' = getValues (Node l v h c r)"
proof -
  from fix_flip_Node [of l v h c r] obtain l1 c1 r1 where
    1: "fix_flip (Node l v h c r) = Some (Node l1 v h c1 r1)"
       "getValues (Node l1 v h c1 r1) = getValues (Node l v h c r)" by blast
  from fix_left_Node [of l1 v h c1 r1] obtain t2 where
    2: "fix_left (Node l1 v h c1 r1) = Some t2" "t2 \<noteq> Null"
       "getValues t2 = getValues (Node l1 v h c1 r1)" by blast
  from 2(2) obtain l2 v2 h2 c2 r2 where t2: "t2 = Node l2 v2 h2 c2 r2" by (cases t2) auto
  from fix_right_Node [of l2 v2 h2 c2 r2] obtain t3 where
    3: "fix_right t2 = Some t3" "t3 \<noteq> Null" "getValues t3 = getValues t2"
    unfolding t2 by blast
  from 1 2 3 show ?thesis by (simp add: fixInsertion_def)
qed

lemma bst_cong: "getValues t' = getValues t \<Longrightarrow> bst t' = bst t"
  by (simp add: bst_def)

lemma values_of_cong: "getValues t' = getValues t \<Longrightarrow> values_of t' = values_of t"
  by (simp add: values_of_def)

lemma RB_insertNode_bst:
  "bst t \<Longrightarrow>
   \<exists>t' n'. RB_insertNode t v n = Some (t', n') \<and> bst t' \<and>
           values_of t' = insert v (values_of t)"
proof (induction t)
  case Null
  then show ?case by simp
next
  case (Node l x h c r)
  show ?case
  proof (cases "v < x")
    case True
    from Node.IH(1) Node.prems obtain l' n' where
      l': "RB_insertNode l v n = Some (l', n')" "bst l'" "values_of l' = insert v (values_of l)"
      by auto
    from fixInsertion_Node [of l' x h c r] obtain t' where
      t': "fixInsertion (Node l' x h c r) = Some t'" "getValues t' = getValues (Node l' x h c r)"
      by blast
    have "bst (Node l' x h c r)" using l' True Node.prems by auto
    then have "bst t'" using bst_cong [OF t'(2)] by simp
    moreover have "values_of t' = insert v (values_of (Node l x h c r))"
      using values_of_cong [OF t'(2)] l' by auto
    ultimately show ?thesis using True l' t' by simp
  next
    case nlt: False
    show ?thesis
    proof (cases "v > x")
      case True
      from Node.IH(2) Node.prems obtain r' n' where
        r': "RB_insertNode r v n = Some (r', n')" "bst r'" "values_of r' = insert v (values_of r)"
        by auto
      from fixInsertion_Node [of l x h c r'] obtain t' where
        t': "fixInsertion (Node l x h c r') = Some t'" "getValues t' = getValues (Node l x h c r')"
        by blast
      have "bst (Node l x h c r')" using r' True Node.prems by auto
      then have "bst t'" using bst_cong [OF t'(2)] by simp
      moreover have "values_of t' = insert v (values_of (Node l x h c r))"
        using values_of_cong [OF t'(2)] r' by auto
      ultimately show ?thesis using True nlt r' t' by simp
    next
      case False
      with nlt have "v = x" by simp
      with Node.prems show ?thesis by auto
    qed
  qed
qed

lemma bst_setBlack [simp]: "bst (setBlack t) = bst t"
  by (simp add: bst_def)

lemma values_of_setBlack [simp]: "values_of (setBlack t) = values_of t"
  by (simp add: values_of_def)

lemma RB_insert_bst:
  assumes "bst (root s)"
  shows "\<exists>s' evs. RB_insert v s = Some (s', evs) \<and> bst (root s') \<and>
           values_of (root s') = insert v (values_of (root s))"
  using RB_insertNode_bst [OF assms, of v "nodeCount s"]
  by (auto simp add: RB_insert_def Let_def)

lemma RB_inserts_bst:
  "bst (root s) \<Longrightarrow>
   \<exists>s'. RB_inserts vs s = Some s' \<and> bst (root s') \<and>
        values_of (root s') = values_of (root s) \<union> set vs"
proof (induction vs arbitrary: s)
  case Nil
  then show ?case by simp
next
  case (Cons v vs)
  from RB_insert_bst [OF Cons.prems, of v] obtain s1 evs where
    s1: "RB_insert v s = Some (s1, evs)" "bst (root s1)"
        "values_of (root s1) = insert v (values_of (root s))" by blast
  from Cons.IH [OF s1(2)] s1(1,3) show ?case by auto
qed

subsection \<open>The AVL invariant\<close>

text \<open>
  \<open>avl\<close>: every node stores the height of its subtree, and the heights of its two
  subtrees differ by at most one. The rebalancing steps read the stored heights, so both
  halves are needed together.
\<close>

fun avl :: "TreeNode \<Rightarrow> bool" where
  "avl Null = True"
| "avl (Node l v h c r) =
     (avl l \<and> avl r \<and> h = 1 + max (getHeight l) (getHeight r) \<and>
      getHeight l - getHeight r \<le> 1 \<and> getHeight r - getHeight l \<le> 1)"

lemma getNodeHeight_avl [simp]: "avl t \<Longrightarrow> getNodeHeight t = getHeight t"
  by (cases t) simp_all

lemma getHeight_nonneg: "0 \<le> getHeight t"
  by (induction t) auto

lemma getHeight_pos: "0 < getHeight (Node l v h c r)"
proof -
  have "0 \<le> max (getHeight l) (getHeight r)"
    by (simp add: le_max_iff_disj getHeight_nonneg)
  then show ?thesis by simp
qed

lemma getHeight_eq_0 [simp]: "getHeight t = 0 \<longleftrightarrow> t = Null"
proof (cases t)
  case Null
  then show ?thesis by simp
next
  case (Node l v h c r)
  with getHeight_pos [of l v h c r] show ?thesis by auto
qed

lemma getHeight_positive_Node: "0 < getHeight t \<Longrightarrow> \<exists>l v h c r. t = Node l v h c r"
  by (cases t) auto

text \<open>
  After an insert into the left subtree the left side can be two higher than the right
  only if the insert made the left subtree higher, and then the left subtree leans to the
  side the value went to: exactly what the comparison of \<open>value\<close> with
  \<open>node.left.value\<close> tests.
\<close>

lemma AVL_insert_rebalance_left:
  assumes l': "avl l'" and r: "avl r"
    and lo: "getHeight r - 1 \<le> getHeight l'" and hi: "getHeight l' \<le> getHeight r + 2"
    and heavy: "getHeight l' = getHeight r + 2 \<Longrightarrow>
        \<exists>ll lx lh lc lr. l' = Node ll lx lh lc lr \<and> v \<noteq> lx \<and>
          (v < lx \<longrightarrow> getHeight ll = getHeight lr + 1) \<and>
          (lx < v \<longrightarrow> getHeight lr = getHeight ll + 1)"
  shows "\<exists>t'. AVL_insert_rebalance (Node l' x h c r) v = Some t' \<and> avl t' \<and>
           getValues t' = getValues l' @ [x] @ getValues r \<and>
           (if getHeight l' = getHeight r + 2 then getHeight t' = getHeight l'
            else t' = Node l' x (1 + max (getHeight l') (getHeight r)) c r)"
proof (cases "getHeight l' = getHeight r + 2")
  case True
  from heavy [OF True] obtain ll lx lh lc lr where
    L: "l' = Node ll lx lh lc lr" "v \<noteq> lx"
       "v < lx \<longrightarrow> getHeight ll = getHeight lr + 1"
       "lx < v \<longrightarrow> getHeight lr = getHeight ll + 1" by blast
  from l' L(1) have sub: "avl ll" "avl lr" "lh = 1 + max (getHeight ll) (getHeight lr)" by auto
  show ?thesis
  proof (cases "v < lx")
    case vl: True
    with True L sub r show ?thesis by (auto simp add: Let_def max_def)
  next
    case False
    with L have vg: "lx < v" "getHeight lr = getHeight ll + 1" by auto
    then have "0 < getHeight lr" using getHeight_nonneg [of ll] by simp
    from getHeight_positive_Node [OF this] obtain a b hh cc d where
      LR: "lr = Node a b hh cc d" by blast
    from sub(2) LR have sub2: "avl a" "avl d" "hh = 1 + max (getHeight a) (getHeight d)"
        "getHeight a - getHeight d \<le> 1" "getHeight d - getHeight a \<le> 1" by auto
    from True L sub r vg LR sub2 False show ?thesis
      by (auto simp add: Let_def max_def split: if_splits)
  qed
next
  case False
  with l' r lo hi show ?thesis by (auto simp add: Let_def)
qed

lemma AVL_insert_rebalance_right:
  assumes l: "avl l" and r': "avl r'"
    and lo: "getHeight l - 1 \<le> getHeight r'" and hi: "getHeight r' \<le> getHeight l + 2"
    and heavy: "getHeight r' = getHeight l + 2 \<Longrightarrow>
        \<exists>rl rx rh rc rr. r' = Node rl rx rh rc rr \<and> v \<noteq> rx \<and>
          (v < rx \<longrightarrow> getHeight rl = getHeight rr + 1) \<and>
          (rx < v \<longrightarrow> getHeight rr = getHeight rl + 1)"
  shows "\<exists>t'. AVL_insert_rebalance (Node l x h c r') v = Some t' \<and> avl t' \<and>
           getValues t' = getValues l @ [x] @ getValues r' \<and>
           (if getHeight r' = getHeight l + 2 then getHeight t' = getHeight r'
            else t' = Node l x (1 + max (getHeight l) (getHeight r')) c r')"
proof (cases "getHeight r' = getHeight l + 2")
  case True
  from heavy [OF True] obtain rl rx rh rc rr where
    R: "r' = Node rl rx rh rc rr" "v \<noteq> rx"
       "v < rx \<longrightarrow> getHeight rl = getHeight rr + 1"
       "rx < v \<longrightarrow> getHeight rr = getHeight rl + 1" by blast
  from r' R(1) have sub: "avl rl" "avl rr" "rh = 1 + max (getHeight rl) (getHeight rr)" by auto
  show ?thesis
  proof (cases "rx < v")
    case vl: True
    with True R sub l show ?thesis by (auto simp add: Let_def max_def)
  next
    case False
    with R have vg: "v < rx" "getHeight rl = getHeight rr + 1" by auto
    then have "0 < getHeight rl" using getHeight_nonneg [of rr] by simp
    from getHeight_positive_Node [OF this] obtain a b hh cc d where
      RL: "rl = Node a b hh cc d" by blast
    from sub(1) RL have sub2: "avl a" "avl d" "hh = 1 + max (getHeight a) (getHeight d)"
        "getHeight a - getHeight d \<le> 1" "getHeight d - getHeight a \<le> 1" by auto
    from True R sub l vg RL sub2 False show ?thesis
      by (auto simp add: Let_def max_def split: if_splits)
  qed
next
  case False
  with l r' lo hi show ?thesis by (auto simp add: Let_def)
qed

lemma avl_new [simp]: "avl (new_TreeNode v)" "getHeight (new_TreeNode v) = 1"
  by (simp_all add: new_TreeNode_def)

lemma AVL_insertNode_avl:
  "avl t \<Longrightarrow> bst t \<Longrightarrow>
   \<exists>t' n'. AVL_insertNode t v n = Some (t', n') \<and> avl t' \<and> bst t' \<and>
     values_of t' = insert v (values_of t) \<and>
     (getHeight t' = getHeight t \<or> getHeight t' = getHeight t + 1) \<and>
     (getHeight t' = getHeight t + 1 \<and> t \<noteq> Null \<longrightarrow>
        (\<exists>l x h c r. t' = Node l x h c r \<and> v \<noteq> x \<and>
           (v < x \<longrightarrow> getHeight l = getHeight r + 1) \<and>
           (x < v \<longrightarrow> getHeight r = getHeight l + 1)))"
proof (induction t arbitrary: n)
  case Null
  then show ?case by simp
next
  case (Node l x h c r)
  from Node.prems have al: "avl l" and ar: "avl r" and bl: "bst l" and br: "bst r"
    and bal: "getHeight l - getHeight r \<le> 1" "getHeight r - getHeight l \<le> 1"
    and lx: "\<forall>y \<in> values_of l. y < x" and xr: "\<forall>y \<in> values_of r. x < y"
    by auto
  have ht: "getHeight (Node l x h c r) = 1 + max (getHeight l) (getHeight r)" by simp
  show ?case
  proof (cases "v < x")
    case True
    from Node.IH(1) [OF al bl, of n] obtain l' n' where
      I: "AVL_insertNode l v n = Some (l', n')" "avl l'" "bst l'"
         "values_of l' = insert v (values_of l)"
         "getHeight l' = getHeight l \<or> getHeight l' = getHeight l + 1"
      and H: "getHeight l' = getHeight l + 1 \<and> l \<noteq> Null \<longrightarrow>
        (\<exists>ll lx lh lc lr. l' = Node ll lx lh lc lr \<and> v \<noteq> lx \<and>
           (v < lx \<longrightarrow> getHeight ll = getHeight lr + 1) \<and>
           (lx < v \<longrightarrow> getHeight lr = getHeight ll + 1))"
      by blast
    have lo: "getHeight r - 1 \<le> getHeight l'" and hi: "getHeight l' \<le> getHeight r + 2"
      using I(5) bal by auto
    have heavy: "getHeight l' = getHeight r + 2 \<Longrightarrow>
        \<exists>ll lx lh lc lr. l' = Node ll lx lh lc lr \<and> v \<noteq> lx \<and>
          (v < lx \<longrightarrow> getHeight ll = getHeight lr + 1) \<and>
          (lx < v \<longrightarrow> getHeight lr = getHeight ll + 1)"
    proof -
      assume a: "getHeight l' = getHeight r + 2"
      with I(5) bal have "getHeight l' = getHeight l + 1" "getHeight l = getHeight r + 1" by auto
      moreover then have "l \<noteq> Null" using getHeight_nonneg [of r] by auto
      ultimately show ?thesis using H by blast
    qed
    from AVL_insert_rebalance_left [OF I(2) ar lo hi heavy, of x h c] obtain t' where
      T: "AVL_insert_rebalance (Node l' x h c r) v = Some t'" "avl t'"
         "getValues t' = getValues l' @ [x] @ getValues r"
         "if getHeight l' = getHeight r + 2 then getHeight t' = getHeight l'
          else t' = Node l' x (1 + max (getHeight l') (getHeight r)) c r"
      by blast
    have gv: "getValues t' = getValues (Node l' x h c r)" using T(3) by simp
    have "bst (Node l' x h c r)" using I(3,4) br lx xr True by auto
    then have b': "bst t'" using bst_cong [OF gv] by simp
    have v': "values_of t' = insert v (values_of (Node l x h c r))"
      using values_of_cong [OF gv] I(4) by auto
    have res: "AVL_insertNode (Node l x h c r) v n = Some (t', n')"
      using True I(1) T(1) by simp
    show ?thesis
    proof (cases "getHeight l' = getHeight r + 2")
      case hv: True
      with T(4) have "getHeight t' = getHeight l'" by simp
      moreover from hv I(5) bal have "getHeight l = getHeight r + 1" by auto
      ultimately have "getHeight t' = getHeight (Node l x h c r)" using hv by simp
      with res T(2) b' v' show ?thesis by simp
    next
      case False
      with T(4) have t': "t' = Node l' x (1 + max (getHeight l') (getHeight r)) c r" by simp
      have h1: "getHeight t' = getHeight (Node l x h c r) \<or>
                getHeight t' = getHeight (Node l x h c r) + 1"
        using t' I(5) by (auto simp add: max_def)
      have h2: "getHeight t' = getHeight (Node l x h c r) + 1 \<longrightarrow>
                getHeight l' = getHeight r + 1"
        using t' I(5) False hi by (auto simp add: max_def split: if_splits)
      have h3: "getHeight t' = getHeight (Node l x h c r) + 1 \<and> Node l x h c r \<noteq> Null \<longrightarrow>
        (\<exists>l0 x0 h0 c0 r0. t' = Node l0 x0 h0 c0 r0 \<and> v \<noteq> x0 \<and>
           (v < x0 \<longrightarrow> getHeight l0 = getHeight r0 + 1) \<and>
           (x0 < v \<longrightarrow> getHeight r0 = getHeight l0 + 1))"
        using h2 True unfolding t' by simp
      show ?thesis
        by (intro exI [of _ t'] exI [of _ n'] conjI res T(2) b' v' h1 h3)
    qed
  next
    case nlt: False
    show ?thesis
    proof (cases "x < v")
      case True
      from Node.IH(2) [OF ar br, of n] obtain r' n' where
        I: "AVL_insertNode r v n = Some (r', n')" "avl r'" "bst r'"
           "values_of r' = insert v (values_of r)"
           "getHeight r' = getHeight r \<or> getHeight r' = getHeight r + 1"
        and H: "getHeight r' = getHeight r + 1 \<and> r \<noteq> Null \<longrightarrow>
          (\<exists>rl rx rh rc rr. r' = Node rl rx rh rc rr \<and> v \<noteq> rx \<and>
             (v < rx \<longrightarrow> getHeight rl = getHeight rr + 1) \<and>
             (rx < v \<longrightarrow> getHeight rr = getHeight rl + 1))"
        by blast
      have lo: "getHeight l - 1 \<le> getHeight r'" and hi: "getHeight r' \<le> getHeight l + 2"
        using I(5) bal by auto
      have heavy: "getHeight r' = getHeight l + 2 \<Longrightarrow>
          \<exists>rl rx rh rc rr. r' = Node rl rx rh rc rr \<and> v \<noteq> rx \<and>
            (v < rx \<longrightarrow> getHeight rl = getHeight rr + 1) \<and>
            (rx < v \<longrightarrow> getHeight rr = getHeight rl + 1)"
      proof -
        assume a: "getHeight r' = getHeight l + 2"
        with I(5) bal have "getHeight r' = getHeight r + 1" "getHeight r = getHeight l + 1" by auto
        moreover then have "r \<noteq> Null" using getHeight_nonneg [of l] by auto
        ultimately show ?thesis using H by blast
      qed
      from AVL_insert_rebalance_right [OF al I(2) lo hi heavy, of x h c] obtain t' where
        T: "AVL_insert_rebalance (Node l x h c r') v = Some t'" "avl t'"
           "getValues t' = getValues l @ [x] @ getValues r'"
           "if getHeight r' = getHeight l + 2 then getHeight t' = getHeight r'
            else t' = Node l x (1 + max (getHeight l) (getHeight r')) c r'"
        by blast
      have gv: "getValues t' = getValues (Node l x h c r')" using T(3) by simp
      have "bst (Node l x h c r')" using I(3,4) bl lx xr True by auto
      then have b': "bst t'" using bst_cong [OF gv] by simp
      have v': "values_of t' = insert v (values_of (Node l x h c r))"
        using values_of_cong [OF gv] I(4) by auto
      have res: "AVL_insertNode (Node l x h c r) v n = Some (t', n')"
        using True nlt I(1) T(1) by simp
      show ?thesis
      proof (cases "getHeight r' = getHeight l + 2")
        case hv: True
        with T(4) have "getHeight t' = getHeight r'" by simp
        moreover from hv I(5) bal have "getHeight r = getHeight l + 1" by auto
        ultimately have "getHeight t' = getHeight (Node l x h c r)" using hv by simp
        with res T(2) b' v' show ?thesis by simp
      next
        case False
        with T(4) have t': "t' = Node l x (1 + max (getHeight l) (getHeight r')) c r'" by simp
        have h1: "getHeight t' = getHeight (Node l x h c r) \<or>
                  getHeight t' = getHeight (Node l x h c r) + 1"
          using t' I(5) by (auto simp add: max_def)
        have h2: "getHeight t' = getHeight (Node l x h c r) + 1 \<longrightarrow>
                  getHeight r' = getHeight l + 1"
          using t' I(5) False hi by (auto simp add: max_def split: if_splits)
        have h3: "getHeight t' = getHeight (Node l x h c r) + 1 \<and> Node l x h c r \<noteq> Null \<longrightarrow>
          (\<exists>l0 x0 h0 c0 r0. t' = Node l0 x0 h0 c0 r0 \<and> v \<noteq> x0 \<and>
             (v < x0 \<longrightarrow> getHeight l0 = getHeight r0 + 1) \<and>
             (x0 < v \<longrightarrow> getHeight r0 = getHeight l0 + 1))"
          using h2 True nlt unfolding t' by simp
        show ?thesis
          by (intro exI [of _ t'] exI [of _ n'] conjI res T(2) b' v' h1 h3)
      qed
    next
      case False
      with nlt have "v = x" by simp
      with Node.prems show ?thesis by auto
    qed
  qed
qed

subsection \<open>Deleting from the AVL tree\<close>

lemma AVL_delete_rebalance_avl:
  assumes l: "avl l" and r: "avl r"
    and d1: "getHeight l - getHeight r \<le> 2" and d2: "getHeight r - getHeight l \<le> 2"
  shows "\<exists>t'. AVL_delete_rebalance (Node l x h c r) = Some t' \<and> avl t' \<and>
           getValues t' = getValues l @ [x] @ getValues r \<and>
           (getHeight t' = 1 + max (getHeight l) (getHeight r) \<or>
            (getHeight t' = max (getHeight l) (getHeight r) \<and>
             (getHeight l = getHeight r + 2 \<or> getHeight r = getHeight l + 2)))"
proof (cases "getHeight l = getHeight r + 2")
  case True
  then have "0 < getHeight l" using getHeight_nonneg [of r] by simp
  from getHeight_positive_Node [OF this] obtain ll lx lh lc lr where
    L: "l = Node ll lx lh lc lr" by blast
  from l L have sub: "avl ll" "avl lr" "lh = 1 + max (getHeight ll) (getHeight lr)"
    "getHeight ll - getHeight lr \<le> 1" "getHeight lr - getHeight ll \<le> 1" by auto
  show ?thesis
  proof (cases "getHeight ll - getHeight lr \<ge> 0")
    case ge: True
    with True L sub r show ?thesis by (auto simp add: Let_def max_def split: if_splits)
  next
    case False
    then have "0 < getHeight lr" using getHeight_nonneg [of ll] by simp
    from getHeight_positive_Node [OF this] obtain a b hh cc d where
      LR: "lr = Node a b hh cc d" by blast
    from sub(2) LR have sub2: "avl a" "avl d" "hh = 1 + max (getHeight a) (getHeight d)"
        "getHeight a - getHeight d \<le> 1" "getHeight d - getHeight a \<le> 1" by auto
    from True L sub r LR sub2 False show ?thesis
      by (auto simp add: Let_def max_def split: if_splits)
  qed
next
  case nl: False
  show ?thesis
  proof (cases "getHeight r = getHeight l + 2")
    case True
    then have "0 < getHeight r" using getHeight_nonneg [of l] by simp
    from getHeight_positive_Node [OF this] obtain rl rx rh rc rr where
      R: "r = Node rl rx rh rc rr" by blast
    from r R have sub: "avl rl" "avl rr" "rh = 1 + max (getHeight rl) (getHeight rr)"
      "getHeight rl - getHeight rr \<le> 1" "getHeight rr - getHeight rl \<le> 1" by auto
    show ?thesis
    proof (cases "getHeight rl - getHeight rr \<le> 0")
      case le: True
      with True R sub l show ?thesis by (auto simp add: Let_def max_def split: if_splits)
    next
      case False
      then have "0 < getHeight rl" using getHeight_nonneg [of rr] by simp
      from getHeight_positive_Node [OF this] obtain a b hh cc d where
        RL: "rl = Node a b hh cc d" by blast
      from sub(1) RL have sub2: "avl a" "avl d" "hh = 1 + max (getHeight a) (getHeight d)"
          "getHeight a - getHeight d \<le> 1" "getHeight d - getHeight a \<le> 1" by auto
      from True R sub l RL sub2 False show ?thesis
        by (auto simp add: Let_def max_def split: if_splits)
    qed
  next
    case False
    with nl l r d1 d2 show ?thesis by (auto simp add: Let_def)
  qed
qed

lemma findMin_least:
  "t \<noteq> Null \<Longrightarrow> bst t \<Longrightarrow>
   \<exists>sl sv sh sc sr. findMin t = Some (Node sl sv sh sc sr) \<and> sv \<in> values_of t \<and>
     (\<forall>y \<in> values_of t. sv \<le> y)"
proof (induction t)
  case Null
  then show ?case by simp
next
  case (Node l x h c r)
  show ?case
  proof (cases "l = Null")
    case True
    with Node.prems show ?thesis by auto
  next
    case False
    from Node.IH(1) [OF False] Node.prems obtain sl sv sh sc sr where
      m: "findMin l = Some (Node sl sv sh sc sr)" "sv \<in> values_of l" "\<forall>y \<in> values_of l. sv \<le> y"
      by auto
    have "\<forall>y \<in> values_of (Node l x h c r). sv \<le> y"
      using m(2,3) Node.prems by fastforce
    with m False show ?thesis by simp
  qed
qed

lemma AVL_delete_step:
  assumes l: "avl l" and r: "avl r" and b: "bst (Node l y h c r)"
    and hl: "getHeight l = hl0 \<or> getHeight l = hl0 - 1"
    and hr: "getHeight r = hr0 \<or> getHeight r = hr0 - 1"
    and one: "getHeight l = hl0 \<or> getHeight r = hr0"
    and bal: "hl0 - hr0 \<le> 1" "hr0 - hl0 \<le> 1"
  shows "\<exists>t'. AVL_delete_rebalance (Node l y h c r) = Some t' \<and> avl t' \<and> bst t' \<and>
           values_of t' = values_of (Node l y h c r) \<and>
           (getHeight t' = 1 + max hl0 hr0 \<or> getHeight t' = 1 + max hl0 hr0 - 1)"
proof -
  have d1: "getHeight l - getHeight r \<le> 2" and d2: "getHeight r - getHeight l \<le> 2"
    using hl hr bal by auto
  from AVL_delete_rebalance_avl [OF l r d1 d2, of y h c] obtain t' where
    T: "AVL_delete_rebalance (Node l y h c r) = Some t'" "avl t'"
       "getValues t' = getValues l @ [y] @ getValues r"
       "getHeight t' = 1 + max (getHeight l) (getHeight r) \<or>
        (getHeight t' = max (getHeight l) (getHeight r) \<and>
         (getHeight l = getHeight r + 2 \<or> getHeight r = getHeight l + 2))"
    by blast
  have gv: "getValues t' = getValues (Node l y h c r)" using T(3) by simp
  have b': "bst t'" using bst_cong [OF gv] b by simp
  have v': "values_of t' = values_of (Node l y h c r)" using values_of_cong [OF gv] .
  have ht: "getHeight t' = 1 + max hl0 hr0 \<or> getHeight t' = 1 + max hl0 hr0 - 1"
    using T(4) hl hr one bal by (auto simp add: max_def split: if_splits)
  show ?thesis by (intro exI [of _ t'] conjI T(1,2) b' v' ht)
qed

lemma AVL_deleteNode_avl:
  "avl t \<Longrightarrow> bst t \<Longrightarrow>
   \<exists>t' n'. AVL_deleteNode t v n = Some (t', n') \<and> avl t' \<and> bst t' \<and>
     values_of t' = values_of t - {v} \<and>
     (getHeight t' = getHeight t \<or> getHeight t' = getHeight t - 1)"
proof (induction t arbitrary: v n)
  case Null
  then show ?case by simp
next
  case (Node l x h c r)
  from Node.prems have al: "avl l" and ar: "avl r" and bl: "bst l" and br: "bst r"
    and bal: "getHeight l - getHeight r \<le> 1" "getHeight r - getHeight l \<le> 1"
    and lx: "\<forall>y \<in> values_of l. y < x" and xr: "\<forall>y \<in> values_of r. x < y"
    by auto
  have ht: "getHeight (Node l x h c r) = 1 + max (getHeight l) (getHeight r)" by simp
  show ?case
  proof (cases "v < x")
    case True
    from Node.IH(1) [OF al bl, of v n] obtain l' n' where
      I: "AVL_deleteNode l v n = Some (l', n')" "avl l'" "bst l'"
         "values_of l' = values_of l - {v}"
         "getHeight l' = getHeight l \<or> getHeight l' = getHeight l - 1"
      by blast
    have b1: "bst (Node l' x h c r)" using I(3,4) br lx xr by auto
    from AVL_delete_step [OF I(2) ar b1 I(5) _ _ bal] obtain t' where
      T: "AVL_delete_rebalance (Node l' x h c r) = Some t'" "avl t'" "bst t'"
         "values_of t' = values_of (Node l' x h c r)"
         "getHeight t' = 1 + max (getHeight l) (getHeight r) \<or>
          getHeight t' = 1 + max (getHeight l) (getHeight r) - 1"
      by auto
    have res: "AVL_deleteNode (Node l x h c r) v n = Some (t', n')"
      using True I(1) T(1) by simp
    have v': "values_of t' = values_of (Node l x h c r) - {v}"
      using T(4) I(4) True xr by auto
    have h': "getHeight t' = getHeight (Node l x h c r) \<or>
              getHeight t' = getHeight (Node l x h c r) - 1"
      using T(5) by simp
    show ?thesis by (intro exI [of _ t'] exI [of _ n'] conjI res T(2,3) v' h')
  next
    case nlt: False
    show ?thesis
    proof (cases "x < v")
      case True
      from Node.IH(2) [OF ar br, of v n] obtain r' n' where
        I: "AVL_deleteNode r v n = Some (r', n')" "avl r'" "bst r'"
           "values_of r' = values_of r - {v}"
           "getHeight r' = getHeight r \<or> getHeight r' = getHeight r - 1"
        by blast
      have b1: "bst (Node l x h c r')" using I(3,4) bl lx xr by auto
      from AVL_delete_step [OF al I(2) b1 _ I(5) _ bal] obtain t' where
        T: "AVL_delete_rebalance (Node l x h c r') = Some t'" "avl t'" "bst t'"
           "values_of t' = values_of (Node l x h c r')"
           "getHeight t' = 1 + max (getHeight l) (getHeight r) \<or>
            getHeight t' = 1 + max (getHeight l) (getHeight r) - 1"
        by auto
      have res: "AVL_deleteNode (Node l x h c r) v n = Some (t', n')"
        using True nlt I(1) T(1) by simp
      have v': "values_of t' = values_of (Node l x h c r) - {v}"
        using T(4) I(4) True lx by auto
      have h': "getHeight t' = getHeight (Node l x h c r) \<or>
                getHeight t' = getHeight (Node l x h c r) - 1"
        using T(5) by simp
      show ?thesis by (intro exI [of _ t'] exI [of _ n'] conjI res T(2,3) v' h')
    next
      case False
      with nlt have vx: "v = x" by simp
      have notin: "x \<notin> values_of l" "x \<notin> values_of r" using lx xr by auto
      show ?thesis
      proof (cases "l = Null \<or> r = Null")
        case True
        then show ?thesis
        proof
          assume "l = Null"
          with vx al ar bl br notin show ?thesis by (auto simp add: max_def getHeight_nonneg)
        next
          assume rN: "r = Null"
          show ?thesis
          proof (cases "l = Null")
            case True
            with rN vx show ?thesis by auto
          next
            case False
            then have "0 < getHeight l" using getHeight_pos by (cases l) auto
            with False rN vx al bl notin show ?thesis by (auto simp add: max_def)
          qed
        qed
      next
        case both: False
        then have rN: "r \<noteq> Null" and lN: "l \<noteq> Null" by auto
        from findMin_least [OF rN br] obtain sl sv sh sc sr where
          m: "findMin r = Some (Node sl sv sh sc sr)" "sv \<in> values_of r"
             "\<forall>y \<in> values_of r. sv \<le> y" by blast
        from Node.IH(2) [OF ar br, of sv n] obtain r' n' where
          I: "AVL_deleteNode r sv n = Some (r', n')" "avl r'" "bst r'"
             "values_of r' = values_of r - {sv}"
             "getHeight r' = getHeight r \<or> getHeight r' = getHeight r - 1"
          by blast
        have xs: "x < sv" using m(2) xr by simp
        have "\<forall>y \<in> values_of r'. sv < y" using I(4) m(3) by fastforce
        moreover have "\<forall>y \<in> values_of l. y < sv" using lx xs by fastforce
        ultimately have b1: "bst (Node l sv h c r')" using I(3) bl by simp
        from AVL_delete_step [OF al I(2) b1 _ I(5) _ bal] obtain t' where
          T: "AVL_delete_rebalance (Node l sv h c r') = Some t'" "avl t'" "bst t'"
             "values_of t' = values_of (Node l sv h c r')"
             "getHeight t' = 1 + max (getHeight l) (getHeight r) \<or>
              getHeight t' = 1 + max (getHeight l) (getHeight r) - 1"
          by auto
        have res: "AVL_deleteNode (Node l x h c r) v n = Some (t', n')"
          using vx both m(1) I(1) T(1) by simp
        have v': "values_of t' = values_of (Node l x h c r) - {v}"
          using T(4) I(4) vx notin m(2) by auto
        have h': "getHeight t' = getHeight (Node l x h c r) \<or>
                  getHeight t' = getHeight (Node l x h c r) - 1"
          using T(5) by simp
        show ?thesis by (intro exI [of _ t'] exI [of _ n'] conjI res T(2,3) v' h')
      qed
    qed
  qed
qed

subsection \<open>The balance factor, computed from the shape\<close>

text \<open>
  \<open>balanced\<close>: at every node, \<open>height(left) - height(right)\<close> is -1, 0 or 1, with
  the heights computed by \<open>_getHeight\<close> and not read from the nodes.
\<close>

fun balanced :: "TreeNode \<Rightarrow> bool" where
  "balanced Null = True"
| "balanced (Node l v h c r) =
     (getHeight l - getHeight r \<in> {-1, 0, 1} \<and> balanced l \<and> balanced r)"

lemma avl_balanced: "avl t \<Longrightarrow> balanced t"
  by (induction t) auto

lemma avl_checkBalance: "avl t \<Longrightarrow> checkBalance t"
  by (induction t) auto

lemma AVL_insert_inv:
  assumes "avl (root s)" "bst (root s)"
  shows "\<exists>s' evs. AVL_insert v s = Some (s', evs) \<and> avl (root s') \<and> bst (root s') \<and>
           values_of (root s') = insert v (values_of (root s))"
proof -
  from AVL_insertNode_avl [OF assms, of v "nodeCount s"] obtain t' n' where
    "AVL_insertNode (root s) v (nodeCount s) = Some (t', n')" "avl t'" "bst t'"
    "values_of t' = insert v (values_of (root s))" by blast
  then show ?thesis by (simp add: AVL_insert_def Let_def)
qed

lemma AVL_delete_inv:
  assumes "avl (root s)" "bst (root s)"
  shows "\<exists>d s' evs. AVL_delete v s = Some (d, s', evs) \<and> avl (root s') \<and> bst (root s')"
proof -
  from AVL_deleteNode_avl [OF assms, of v "nodeCount s"] obtain t' n' where
    "AVL_deleteNode (root s) v (nodeCount s) = Some (t', n')" "avl t'" "bst t'" by blast
  then show ?thesis by (simp add: AVL_delete_def Let_def)
qed

lemma AVL_step_inv:
  assumes "avl (root s)" "bst (root s)"
  shows "\<exists>s'. AVL_step x s = Some s' \<and> avl (root s') \<and> bst (root s')"
proof (cases x)
  case (Insert v)
  with AVL_insert_inv [OF assms, of v] show ?thesis by auto
next
  case (Delete v)
  with AVL_delete_inv [OF assms, of v] show ?thesis by auto
qed

lemma AVL_run_inv:
  "avl (root s) \<Longrightarrow> bst (root s) \<Longrightarrow>
   \<exists>s'. AVL_run xs s = Some s' \<and> avl (root s') \<and> bst (root s')"
proof (induction xs arbitrary: s)
  case Nil
  then show ?case by simp
next
  case (Cons x xs)
  from AVL_step_inv [OF Cons.prems, of x] obtain s1 where
    s1: "AVL_step x s = Some s1" "avl (root s1)" "bst (root s1)" by blast
  from Cons.IH [OF s1(2,3)] s1(1) show ?case by simp
qed

lemma AVL_inserts_inv:
  "avl (root s) \<Longrightarrow> bst (root s) \<Longrightarrow>
   \<exists>s'. AVL_inserts vs s = Some s' \<and> avl (root s') \<and> bst (root s') \<and>
        values_of (root s') = values_of (root s) \<union> set vs"
proof (induction vs arbitrary: s)
  case Nil
  then show ?case by simp
next
  case (Cons v vs)
  from AVL_insert_inv [OF Cons.prems, of v] obtain s1 evs where
    s1: "AVL_insert v s = Some (s1, evs)" "avl (root s1)" "bst (root s1)"
        "values_of (root s1) = insert v (values_of (root s))" by blast
  from Cons.IH [OF s1(2,3)] s1(1,4) show ?case by auto
qed

lemma BinTree_new_inv [simp]:
  "avl (root BinTree_new)" "bst (root BinTree_new)" "values_of (root BinTree_new) = {}"
  by (simp_all add: BinTree_new_def)

section \<open>B-Tree: the shape kept by insert\<close>

subsection \<open>What the array loops compute\<close>

text \<open>
  Shifting from the end down to \<open>i\<close> and then storing at \<open>i\<close> inserts at \<open>i\<close>,
  for every \<open>i\<close> up to the length of the array.
\<close>

lemma shift_right_inner:
  "i \<le> j \<Longrightarrow> j < length xs \<Longrightarrow>
   shift_right u (take (Suc j) xs @ drop j xs) j i = take (Suc i) xs @ drop i xs"
proof (induction j)
  case 0
  then show ?case by (subst shift_right.simps) simp
next
  case (Suc j)
  show ?case
  proof (cases "i = Suc j")
    case True
    then show ?thesis by (subst shift_right.simps) simp
  next
    case False
    with Suc.prems have ij: "i \<le> j" and j: "j < length xs" "Suc j < length xs" by auto
    let ?arr = "take (Suc (Suc j)) xs @ drop (Suc j) xs"
    have arr: "?arr = take (Suc j) xs @ [xs ! Suc j] @ drop (Suc j) xs"
      using j by (simp add: take_Suc_conv_app_nth)
    have g: "js_get u ?arr j = xs ! j"
      using j by (auto simp add: js_get_def nth_append)
    have "js_set u ?arr (Suc j) (xs ! j) = take (Suc j) xs @ [xs ! j] @ drop (Suc j) xs"
      unfolding arr using j by (simp add: js_set_def list_update_append)
    also have "\<dots> = take (Suc j) xs @ drop j xs"
      using j by (simp add: Cons_nth_drop_Suc)
    finally have st: "js_set u ?arr (Suc j) (js_get u ?arr j) = take (Suc j) xs @ drop j xs"
      using g by simp
    have "shift_right u ?arr (Suc j) i = shift_right u (take (Suc j) xs @ drop j xs) j i"
      using ij st by (subst shift_right.simps) simp
    with Suc.IH [OF ij j(1)] show ?thesis by simp
  qed
qed

lemma js_insert_at:
  assumes "i \<le> length xs"
  shows "js_set u (shift_right u xs (length xs) i) i v = take i xs @ v # drop i xs"
proof (cases "i = length xs")
  case True
  then show ?thesis by (subst shift_right.simps) (simp add: js_set_def)
next
  case False
  with assms have i: "i < length xs" by simp
  then obtain n where n: "length xs = Suc n" by (cases xs) auto
  have in': "i \<le> n" using i n by simp
  have "js_set u xs (length xs) (js_get u xs (length xs - 1)) = xs @ [xs ! n]"
    using n by (simp add: js_set_def js_get_def)
  also have "\<dots> = take (Suc n) xs @ drop n xs"
    using n by (metis Cons_nth_drop_Suc append.right_neutral drop_all lessI order_refl take_all)
  finally have st: "js_set u xs (length xs) (js_get u xs (length xs - 1))
      = take (Suc n) xs @ drop n xs" .
  have "shift_right u xs (length xs) i = shift_right u (take (Suc n) xs @ drop n xs) n i"
    using i st n by (subst shift_right.simps) simp
  also have "\<dots> = take (Suc i) xs @ drop i xs"
    using shift_right_inner [OF in', of xs u] n by simp
  finally have sr: "shift_right u xs (length xs) i = take (Suc i) xs @ drop i xs" .
  have "take (Suc i) xs @ drop i xs = take i xs @ [xs ! i] @ drop i xs"
    using i by (simp add: take_Suc_conv_app_nth)
  then show ?thesis
    unfolding sr using i by (simp add: js_set_def list_update_append)
qed

lemma length_leaf_shift:
  "j \<le> length ks \<Longrightarrow> length (leaf_shift ks j v) = (if j < length ks then length ks else Suc j)"
proof (induction ks j v rule: leaf_shift.induct)
  case (1 ks j v)
  show ?case
  proof (cases "j > 0 \<and> js_lt v (js_get None ks (j - 1))")
    case True
    let ?ks' = "js_set None ks j (js_get None ks (j - 1))"
    have len: "length ?ks' = (if j < length ks then length ks else Suc j)"
      using "1.prems" by (simp add: js_set_def)
    then have "j - 1 \<le> length ?ks'" using "1.prems" by auto
    from "1.IH" [OF True this] True len "1.prems" show ?thesis
      by (subst leaf_shift.simps) (auto split: if_splits)
  next
    case False
    with "1.prems" show ?thesis
      by (subst leaf_shift.simps) (auto simp add: js_set_def)
  qed
qed

lemma child_index_le: "child_index ks j v \<le> j"
proof (induction ks j v rule: child_index.induct)
  case (1 ks j v)
  show ?case
  proof (cases "j > 0 \<and> js_lt v (js_get None ks (j - 1))")
    case True
    with 1 [OF True] show ?thesis by (subst child_index.simps) simp
  next
    case False
    then show ?thesis by (subst child_index.simps) auto
  qed
qed

subsection \<open>The shape invariant of the B-Tree\<close>

text \<open>
  \<open>bt_node t lo h n\<close>: \<open>n\<close> is a node with between \<open>lo\<close> and \<open>2t - 1\<close> keys whose
  leaves are all \<open>h\<close> levels down; a leaf has no children, an inner node has one child
  more than keys, and every node below has between \<open>t - 1\<close> and \<open>2t - 1\<close> keys.
\<close>

fun bt_node :: "nat \<Rightarrow> nat \<Rightarrow> nat \<Rightarrow> BTreeNode \<Rightarrow> bool" where
  "bt_node t lo h NoNode = False"
| "bt_node t lo h (BTreeNode ks cs leaf) =
     (lo \<le> length ks \<and> length ks \<le> 2 * t - 1 \<and>
      (if leaf then h = 0 \<and> cs = []
       else h \<noteq> 0 \<and> length cs = length ks + 1 \<and>
            (\<forall>c \<in> set cs. bt_node t (t - 1) (h - 1) c)))"

lemma bt_node_weaken:
  "bt_node t lo h n \<Longrightarrow> lo' \<le> length (keys n) \<Longrightarrow> bt_node t lo' h n"
  by (cases n) auto

lemma bt_node_cases:
  assumes "bt_node t lo h n"
  obtains ks cs leaf where "n = BTreeNode ks cs leaf"
  using assms by (cases n) auto

lemma BTree_splitChild_ok:
  assumes t: "0 < t" and i: "i < length xc" and len: "length xc = length xk + 1"
    and ch: "\<forall>c \<in> set xc. bt_node t (t - 1) h c"
    and y: "xc ! i = BTreeNode yk yc yl" and full: "length yk = 2 * t - 1"
  shows "\<exists>xk' xc'. BTree_splitChild t (BTreeNode xk xc xl) i = Some (BTreeNode xk' xc' xl) \<and>
           length xk' = length xk + 1 \<and> length xc' = length xk' + 1 \<and>
           (\<forall>c \<in> set xc'. bt_node t (t - 1) h c) \<and>
           (\<exists>ks1 cs1 l1. xc' ! i = BTreeNode ks1 cs1 l1 \<and> length ks1 = t - 1) \<and>
           (\<exists>ks2 cs2 l2. xc' ! (i + 1) = BTreeNode ks2 cs2 l2 \<and> length ks2 = t - 1) \<and>
           js_get None xk' i = None"
proof -
  define zk where "zk = map (\<lambda>j. js_get None yk (j + t)) [0..<t - 1]"
  define zc where "zc = (if \<not> yl then map (\<lambda>j. js_get NoNode yc (j + t)) [0..<t] else [])"
  define yk' where "yk' = js_set_length None yk (t - 1)"
  define yc' where "yc' = js_set_length NoNode yc (if yl then 0 else t)"
  define xc1 where "xc1 = xc[i := BTreeNode yk' yc' yl]"
  define xc2 where "xc2 = js_set NoNode (shift_right NoNode xc1 (length xc1) (i + 1)) (i + 1) (BTreeNode zk zc yl)"
  define xk2 where "xk2 = js_set None (shift_right None xk (length xk) i) i (js_get None yk' (t - 1))"
  have g: "js_get NoNode xc i = BTreeNode yk yc yl" using i y by (simp add: js_get_def)
  have res: "BTree_splitChild t (BTreeNode xk xc xl) i = Some (BTreeNode xk2 xc2 xl)"
    using g t by (simp add: Let_def zk_def zc_def yk'_def yc'_def xc1_def xc2_def xk2_def)
  have yin: "BTreeNode yk yc yl \<in> set xc" using i y by (metis nth_mem)
  with ch have yok: "bt_node t (t - 1) h (BTreeNode yk yc yl)" by blast
  have lyk': "length yk' = t - 1" using full t by (simp add: yk'_def js_set_length_def)
  have lzk: "length zk = t - 1" by (simp add: zk_def)
  have y'ok: "bt_node t (t - 1) h (BTreeNode yk' yc' yl)"
  proof (cases yl)
    case True
    with yok lyk' show ?thesis by (simp add: yc'_def js_set_length_def)
  next
    case False
    with yok full t have lc: "length yc = 2 * t" "h \<noteq> 0" "\<forall>c \<in> set yc. bt_node t (t - 1) (h - 1) c"
      by auto
    have "yc' = take t yc" using False lc by (simp add: yc'_def js_set_length_def)
    moreover have "set (take t yc) \<subseteq> set yc" by (rule set_take_subset)
    ultimately show ?thesis using False lc lyk' t by auto
  qed
  have zok: "bt_node t (t - 1) h (BTreeNode zk zc yl)"
  proof (cases yl)
    case True
    with yok lzk show ?thesis by (simp add: zc_def)
  next
    case False
    with yok full t have lc: "length yc = 2 * t" "h \<noteq> 0" "\<forall>c \<in> set yc. bt_node t (t - 1) (h - 1) c"
      by auto
    have "\<forall>c \<in> set zc. c \<in> set yc"
      using False lc by (auto simp add: zc_def js_get_def)
    moreover have "length zc = t" using False by (simp add: zc_def)
    ultimately show ?thesis using False lc lzk t by auto
  qed
  have l1: "length xc1 = length xc" by (simp add: xc1_def)
  have xc2: "xc2 = take (i + 1) xc1 @ BTreeNode zk zc yl # drop (i + 1) xc1"
    unfolding xc2_def using i l1 by (intro js_insert_at) simp
  have xk2: "xk2 = take i xk @ js_get None yk' (t - 1) # drop i xk"
    unfolding xk2_def using i len by (intro js_insert_at) simp
  have none: "js_get None yk' (t - 1) = None" using lyk' by (simp add: js_get_def)
  have lxk2: "length xk2 = length xk + 1" using xk2 i len by simp
  have lxc2: "length xc2 = length xk2 + 1" using xc2 l1 i len lxk2 by simp
  have set1: "set xc1 \<subseteq> insert (BTreeNode yk' yc' yl) (set xc)"
    unfolding xc1_def by (rule set_update_subset_insert)
  have "set xc2 \<subseteq> insert (BTreeNode zk zc yl) (set xc1)"
    unfolding xc2 using set_take_subset [of "i + 1" xc1] set_drop_subset [of "i + 1" xc1] by auto
  with set1 have "set xc2 \<subseteq> insert (BTreeNode zk zc yl) (insert (BTreeNode yk' yc' yl) (set xc))"
    by blast
  with ch y'ok zok have allok: "\<forall>c \<in> set xc2. bt_node t (t - 1) h c" by blast
  have at_i: "xc2 ! i = BTreeNode yk' yc' yl"
    unfolding xc2 using i l1 by (simp add: nth_append xc1_def)
  have at_i1: "xc2 ! (i + 1) = BTreeNode zk zc yl"
    unfolding xc2 using i l1 by (simp add: nth_append)
  have gnone: "js_get None xk2 i = None"
    unfolding xk2 using none i len by (simp add: js_get_def nth_append)
  show ?thesis
    using res lxk2 lxc2 allok at_i at_i1 lyk' lzk gnone by blast
qed

lemma is_full_node:
  "0 < t \<Longrightarrow> is_full t (BTreeNode ks cs leaf) = Some (length ks = 2 * t - 1)"
  by (auto simp add: is_full_def)

text \<open>
  \<open>_insertNonFull\<close> keeps the shape of a node that has room for one more key. It also
  keeps the shape of a full inner node when the child that the descent chooses is not
  full, since no key is then added to the node itself: this is the new root right after a
  root split when \<open>t = 1\<close>.
\<close>

lemma BTree_insertNonFull_ok:
  "0 < t \<Longrightarrow> bt_node t lo h x \<Longrightarrow>
   length (keys x) < 2 * t - 1 \<or>
     (\<not> isLeaf x \<and>
      length (keys (children x ! child_index (keys x) (length (keys x)) v)) \<noteq> 2 * t - 1) \<Longrightarrow>
   \<exists>x'. BTree_insertNonFull t x v = Some x' \<and> bt_node t lo h x'"
proof (induction h arbitrary: x lo)
  case 0
  from "0.prems"(2) obtain ks cs leaf where x: "x = BTreeNode ks cs leaf"
    by (rule bt_node_cases)
  with "0.prems" have leaf: "leaf" "cs = []" "lo \<le> length ks" "length ks < 2 * t - 1"
    by (auto split: if_splits)
  have "length (leaf_shift ks (length ks) v) = Suc (length ks)"
    by (simp add: length_leaf_shift)
  with x leaf show ?case by (simp add: BTree_insertNonFull.simps)
next
  case (Suc h)
  from Suc.prems(2) obtain ks cs leaf where x: "x = BTreeNode ks cs leaf"
    by (rule bt_node_cases)
  with Suc.prems have nl: "\<not> leaf" and lo: "lo \<le> length ks" and hi: "length ks \<le> 2 * t - 1"
    and lc: "length cs = length ks + 1" and ch: "\<forall>c \<in> set cs. bt_node t (t - 1) h c"
    by (auto split: if_splits)
  have t0: "0 < t" using Suc.prems(1) by simp
  define i where "i = child_index ks (length ks) v"
  have room: "length ks < 2 * t - 1 \<or> length (keys (cs ! i)) \<noteq> 2 * t - 1"
    using Suc.prems(3) x by (auto simp add: i_def)
  have i: "i < length cs" using child_index_le [of ks "length ks" v] lc by (simp add: i_def)
  then have cin: "cs ! i \<in> set cs" by simp
  with ch have cok: "bt_node t (t - 1) h (cs ! i)" by blast
  then obtain yk yc yl where y: "cs ! i = BTreeNode yk yc yl" by (rule bt_node_cases)
  have g: "js_get NoNode cs i = BTreeNode yk yc yl" using i y by (simp add: js_get_def)
  show ?case
  proof (cases "length yk = 2 * t - 1")
    case False
    have d: "BTree_descend t x v = Some (x, i)"
      using x g False t0 by (simp add: BTree_descend_def i_def [symmetric] is_full_node)
    from cok y False have "length (keys (cs ! i)) < 2 * t - 1" by auto
    from Suc.IH [OF Suc.prems(1) cok disjI1 [OF this]] obtain c' where
      c': "BTree_insertNonFull t (cs ! i) v = Some c'" "bt_node t (t - 1) h c'" by blast
    have r: "BTree_insertNonFull t x v = Some (BTreeNode ks (cs[i := c']) leaf)"
      using x nl d c' g y by (simp add: BTree_insertNonFull.simps)
    have "set (cs[i := c']) \<subseteq> insert c' (set cs)" by (rule set_update_subset_insert)
    with ch c'(2) have "\<forall>c \<in> set (cs[i := c']). bt_node t (t - 1) h c" by blast
    with r nl lo hi lc show ?thesis by simp
  next
    case True
    with room y have nf: "length ks < 2 * t - 1" by simp
    from BTree_splitChild_ok [OF t0 i lc ch y True, of leaf] obtain xk' xc' where
      sp: "BTree_splitChild t (BTreeNode ks cs leaf) i = Some (BTreeNode xk' xc' leaf)"
          "length xk' = length ks + 1" "length xc' = length xk' + 1"
          "\<forall>c \<in> set xc'. bt_node t (t - 1) h c"
          "\<exists>ks1 cs1 l1. xc' ! i = BTreeNode ks1 cs1 l1 \<and> length ks1 = t - 1"
          "\<exists>ks2 cs2 l2. xc' ! (i + 1) = BTreeNode ks2 cs2 l2 \<and> length ks2 = t - 1"
          "js_get None xk' i = None"
      by blast
    define i' where "i' = (if js_gt v (js_get None xk' i) then i + 1 else i)"
    have d: "BTree_descend t x v = Some (BTreeNode xk' xc' leaf, i')"
      using x g True t0 sp(1)
      by (simp add: BTree_descend_def i_def [symmetric] is_full_node i'_def)
    have i'lt: "i' < length xc'" using i lc sp(2,3) by (simp add: i'_def)
    then have "xc' ! i' \<in> set xc'" by simp
    with sp(4) have c1: "bt_node t (t - 1) h (xc' ! i')" by blast
    have "\<exists>ks1 cs1 l1. xc' ! i' = BTreeNode ks1 cs1 l1 \<and> length ks1 = t - 1"
      using sp(5,6) by (simp add: i'_def)
    then have c2: "length (keys (xc' ! i')) < 2 * t - 1" using t0 by auto
    from Suc.IH [OF Suc.prems(1) c1 disjI1 [OF c2]] obtain c' where
      c': "BTree_insertNonFull t (xc' ! i') v = Some c'" "bt_node t (t - 1) h c'" by blast
    have g': "js_get NoNode xc' i' = xc' ! i'" using i'lt by (simp add: js_get_def)
    have r: "BTree_insertNonFull t x v = Some (BTreeNode xk' (xc'[i' := c']) leaf)"
      using x nl d c' g' by (simp add: BTree_insertNonFull.simps)
    have "set (xc'[i' := c']) \<subseteq> insert c' (set xc')" by (rule set_update_subset_insert)
    with sp(4) c'(2) have "\<forall>c \<in> set (xc'[i' := c']). bt_node t (t - 1) h c" by blast
    with r nl lo nf sp(2,3) show ?thesis by simp
  qed
qed

text \<open>
  The states a run of inserts reaches. For \<open>t > 0\<close> the root has at least one key and
  the shape above. For \<open>t = 0\<close> the test \<open>keys.length === 2 * t - 1\<close> compares with -1
  and never holds, so the root stays the leaf it was created as.
\<close>

definition bt_state :: "BTree \<Rightarrow> bool" where
  "bt_state s \<longleftrightarrow>
     root s = NoNode \<or>
     (if degree s = 0 then \<exists>ks. root s = BTreeNode ks [] True
      else \<exists>h. bt_node (degree s) 1 h (root s))"

lemma child_index_undefined:
  "js_get None ks (length ks - 1) = None \<Longrightarrow> child_index ks (length ks) v = length ks"
  by (subst child_index.simps) simp

lemma BTree_insert_ok:
  assumes inv: "bt_state s"
  shows "\<exists>s' evs. BTree_insert v s = Some (s', evs) \<and> bt_state s' \<and> degree s' = degree s"
proof (cases "root s")
  case NoNode
  have "0 < degree s \<Longrightarrow> Suc 0 \<le> 2 * degree s - Suc 0" by arith
  with NoNode show ?thesis by (simp add: BTree_insert_def bt_state_def)
next
  case (BTreeNode ks cs leaf)
  show ?thesis
  proof (cases "degree s = 0")
    case True
    with inv BTreeNode have l: "cs = []" "leaf" by (auto simp add: bt_state_def)
    have "BTree_insertNonFull 0 (BTreeNode ks [] True) v
            = Some (BTreeNode (leaf_shift ks (length ks) v) [] True)"
      by (simp add: BTree_insertNonFull.simps)
    with BTreeNode True l show ?thesis by (simp add: BTree_insert_def bt_state_def)
  next
    case False
    then have t0: "0 < degree s" by simp
    with inv BTreeNode obtain h where h: "bt_node (degree s) 1 h (root s)"
      by (auto simp add: bt_state_def)
    show ?thesis
    proof (cases "length ks = 2 * degree s - 1")
      case False
      then have nf: "int (length ks) \<noteq> 2 * int (degree s) - 1" using t0 by auto
      from h BTreeNode False have "length (keys (root s)) < 2 * degree s - 1" by auto
      from BTree_insertNonFull_ok [OF t0 h disjI1 [OF this], of v] obtain r where
        "BTree_insertNonFull (degree s) (root s) v = Some r" "bt_node (degree s) 1 h r" by blast
      with BTreeNode nf t0 show ?thesis by (auto simp add: BTree_insert_def bt_state_def)
    next
      case True
      then have f: "int (length ks) = 2 * int (degree s) - 1" using t0 by auto
      have hy: "bt_node (degree s) (degree s - 1) h (root s)"
        using h BTreeNode True by (intro bt_node_weaken [OF h]) simp
      have "\<forall>c \<in> set [root s]. bt_node (degree s) (degree s - 1) h c" using hy by simp
      from BTree_splitChild_ok [OF t0 _ _ this _ True, of 0 "[]" cs leaf False] BTreeNode
      obtain xk' xc' where
        sp: "BTree_splitChild (degree s) (BTreeNode [] [root s] False) 0 = Some (BTreeNode xk' xc' False)"
            "length xk' = 1" "length xc' = length xk' + 1"
            "\<forall>c \<in> set xc'. bt_node (degree s) (degree s - 1) h c"
            "\<exists>ks2 cs2 l2. xc' ! (0 + 1) = BTreeNode ks2 cs2 l2 \<and> length ks2 = degree s - 1"
            "js_get None xk' 0 = None"
        by auto
      have x': "bt_node (degree s) 1 (Suc h) (BTreeNode xk' xc' False)"
        using sp t0 by simp
      have "child_index xk' (length xk') v = length xk'"
        using sp(2,6) by (intro child_index_undefined) simp
      with sp(2,5) t0 have
        "length (keys (children (BTreeNode xk' xc' False)
            ! child_index (keys (BTreeNode xk' xc' False)) (length (keys (BTreeNode xk' xc' False))) v))
          \<noteq> 2 * degree s - 1"
        by auto
      then have
        "length (keys (BTreeNode xk' xc' False)) < 2 * degree s - 1 \<or>
         (\<not> isLeaf (BTreeNode xk' xc' False) \<and>
          length (keys (children (BTreeNode xk' xc' False)
            ! child_index (keys (BTreeNode xk' xc' False)) (length (keys (BTreeNode xk' xc' False))) v))
          \<noteq> 2 * degree s - 1)"
        by simp
      from BTree_insertNonFull_ok [OF t0 x' this] obtain r where
        "BTree_insertNonFull (degree s) (BTreeNode xk' xc' False) v = Some r"
        "bt_node (degree s) 1 (Suc h) r" by blast
      with BTreeNode f sp(1) t0 show ?thesis by (auto simp add: BTree_insert_def bt_state_def)
    qed
  qed
qed

lemma BTree_inserts_ok:
  "bt_state s \<Longrightarrow>
   \<exists>s'. BTree_inserts vs s = Some s' \<and> bt_state s' \<and> degree s' = degree s"
proof (induction vs arbitrary: s)
  case Nil
  then show ?case by simp
next
  case (Cons v vs)
  from BTree_insert_ok [OF Cons.prems, of v] obtain s1 evs where
    s1: "BTree_insert v s = Some (s1, evs)" "bt_state s1" "degree s1 = degree s" by blast
  from Cons.IH [of s1] s1 show ?case by simp
qed

subsection \<open>The nodes below the root, and the depths of the leaves\<close>

text \<open>
  \<open>descendants n\<close> lists every node below \<open>n\<close> (the children of the inner nodes, as
  \<open>levelOrderTraversal\<close> follows them); \<open>leaf_depths n\<close> lists, for every leaf under
  \<open>n\<close>, how many levels down it is.
\<close>

fun descendants :: "BTreeNode \<Rightarrow> BTreeNode list" where
  "descendants NoNode = []"
| "descendants (BTreeNode ks cs leaf) =
     (if leaf then [] else concat (map (\<lambda>c. c # descendants c) cs))"

fun leaf_depths :: "BTreeNode \<Rightarrow> nat list" where
  "leaf_depths NoNode = []"
| "leaf_depths (BTreeNode ks cs leaf) =
     (if leaf then [0] else concat (map (\<lambda>c. map Suc (leaf_depths c)) cs))"

lemma bt_node_descendants:
  "bt_node t lo h n \<Longrightarrow>
   \<forall>d \<in> set (descendants n). d \<noteq> NoNode \<and> t - 1 \<le> length (keys d) \<and> length (keys d) \<le> 2 * t - 1"
proof (induction h arbitrary: n lo)
  case 0
  then show ?case by (cases n) (auto split: if_splits)
next
  case (Suc h)
  from Suc.prems obtain ks cs leaf where n: "n = BTreeNode ks cs leaf" by (rule bt_node_cases)
  show ?case
  proof (cases leaf)
    case True
    with n show ?thesis by simp
  next
    case False
    with Suc.prems n have ch: "\<forall>c \<in> set cs. bt_node t (t - 1) h c" by simp
    show ?thesis
    proof
      fix d assume "d \<in> set (descendants n)"
      with n False obtain c where c: "c \<in> set cs" "d = c \<or> d \<in> set (descendants c)" by auto
      from ch c(1) have ok: "bt_node t (t - 1) h c" by blast
      from c(2) show "d \<noteq> NoNode \<and> t - 1 \<le> length (keys d) \<and> length (keys d) \<le> 2 * t - 1"
      proof
        assume "d = c"
        with ok show ?thesis by (cases c) auto
      next
        assume "d \<in> set (descendants c)"
        with Suc.IH [OF ok] show ?thesis by blast
      qed
    qed
  qed
qed

lemma bt_node_leaf_depths:
  "bt_node t lo h n \<Longrightarrow> \<forall>x \<in> set (leaf_depths n). x = h"
proof (induction h arbitrary: n lo)
  case 0
  then show ?case by (cases n) (auto split: if_splits)
next
  case (Suc h)
  from Suc.prems obtain ks cs leaf where n: "n = BTreeNode ks cs leaf" by (rule bt_node_cases)
  show ?case
  proof (cases leaf)
    case True
    with n Suc.prems show ?thesis by simp
  next
    case False
    with Suc.prems n have ch: "\<forall>c \<in> set cs. bt_node t (t - 1) h c" by simp
    show ?thesis
    proof
      fix x assume "x \<in> set (leaf_depths n)"
      with n False obtain c y where c: "c \<in> set cs" "y \<in> set (leaf_depths c)" "x = Suc y" by auto
      from ch c(1) have "bt_node t (t - 1) h c" by blast
      from Suc.IH [OF this] c(2,3) show "x = Suc h" by blast
    qed
  qed
qed

lemma BTree_new_ok [simp]: "bt_state (BTree_new t)" "degree (BTree_new t) = t"
  by (simp_all add: bt_state_def BTree_new_def)

text \<open>
  What every run of inserts keeps, for every minimum degree \<open>t\<close>: each insert returns,
  every node below the root has between \<open>t - 1\<close> and \<open>2t - 1\<close> slots in its key array,
  and all leaves are at the same depth.
\<close>

lemma BTree_inserts_shape:
  "\<exists>s. BTree_inserts vs (BTree_new t) = Some s \<and>
       (\<forall>n \<in> set (descendants (root s)).
          n \<noteq> NoNode \<and> t - 1 \<le> length (keys n) \<and> length (keys n) \<le> 2 * t - 1) \<and>
       (\<exists>d. \<forall>x \<in> set (leaf_depths (root s)). x = d)"
proof -
  from BTree_inserts_ok [of "BTree_new t" vs] obtain s where
    s: "BTree_inserts vs (BTree_new t) = Some s" "bt_state s" "degree s = t" by auto
  show ?thesis
  proof (cases "root s = NoNode")
    case True
    with s(1) show ?thesis by simp
  next
    case False
    show ?thesis
    proof (cases "t = 0")
      case True
      with False s(2,3) obtain ks where "root s = BTreeNode ks [] True"
        by (auto simp add: bt_state_def)
      with s(1) show ?thesis by simp
    next
      case t: False
      with False s(2,3) obtain h where "bt_node t 1 h (root s)"
        by (auto simp add: bt_state_def)
      from bt_node_descendants [OF this] bt_node_leaf_depths [OF this] s(1)
      show ?thesis by blast
    qed
  qed
qed

text \<open>
  The slots of a key array are not all keys: \<open>_splitChild\<close> stores \<open>undefined\<close> as the
  separator (\<open>js_get None xk' i = None\<close> in \<open>BTree_splitChild_ok\<close>). \<open>key_count n\<close> is
  the number of keys the node \<open>n\<close> holds: the slots of its key array that are not
  \<open>undefined\<close>.
\<close>

fun key_count :: "BTreeNode \<Rightarrow> nat" where
  "key_count NoNode = 0"
| "key_count (BTreeNode ks cs leaf) = length (filter (\<lambda>k. k \<noteq> None) ks)"

section \<open>B+ Tree: what a split stores\<close>

text \<open>
  \<open>_splitChild\<close> on a full child \<open>y\<close> (\<open>2t - 1\<close> keys), for every parent and every
  \<open>t > 0\<close>. A full leaf keeps its first \<open>t - 1\<close> keys; the parent receives the middle
  key \<open>y.keys[t - 1]\<close>, which is also the first key of the new right leaf; the right leaf
  holds it followed by \<open>y.keys[t + 1 ..]\<close> (the second copy loop writes over slot 0, which
  held \<open>y.keys[t]\<close>). A full inner node keeps its first \<open>t - 1\<close> keys, the new right node
  receives the last \<open>t - 1\<close>, and the parent receives \<open>undefined\<close>: the slot
  \<open>y.keys[t - 1]\<close> is read after \<open>y.keys\<close> was cut to \<open>t - 1\<close> entries.
\<close>

lemma js_get_js_set_same: "js_get u (js_set u xs i v) i = v"
  by (simp add: js_get_def js_set_def nth_append)

lemma upper_keys_drop:
  assumes "0 < t" "length yk = 2 * t - 1"
  shows "map (\<lambda>j. js_get None yk (j + t)) [0..<t - 1] = drop t yk"
proof (rule nth_equalityI)
  show "length (map (\<lambda>j. js_get None yk (j + t)) [0..<t - 1]) = length (drop t yk)"
    using assms by simp
next
  fix i assume "i < length (map (\<lambda>j. js_get None yk (j + t)) [0..<t - 1])"
  then have i: "i < t - 1" by simp
  then have "i + t < length yk" using assms by simp
  with i show "map (\<lambda>j. js_get None yk (j + t)) [0..<t - 1] ! i = drop t yk ! i"
    by (simp add: js_get_def add.commute)
qed

lemma parent_children_after_split:
  assumes "index < length xc"
  shows "js_set NoNode (shift_right NoNode (xc[index := y']) (length (xc[index := y'])) (index + 1))
           (index + 1) z
         = take index xc @ y' # z # drop (index + 1) xc"
proof -
  have "index + 1 \<le> length (xc[index := y'])" using assms by simp
  from js_insert_at [OF this, of NoNode z]
  have "js_set NoNode (shift_right NoNode (xc[index := y']) (length (xc[index := y'])) (index + 1))
           (index + 1) z
        = take (index + 1) (xc[index := y']) @ z # drop (index + 1) (xc[index := y'])" .
  also have "take (index + 1) (xc[index := y']) = take index xc @ [y']"
    using assms by (simp add: take_Suc_conv_app_nth)
  also have "drop (index + 1) (xc[index := y']) = drop (index + 1) xc" by simp
  finally show ?thesis by simp
qed

lemma leaf_keys_of_z_full:
  assumes t: "0 < t" and full: "length yk = 2 * t - 1"
  shows "leaf_keys_of_z t yk = yk ! (t - 1) # drop (t + 1) yk"
proof -
  define yk1 where "yk1 = js_set_length None yk t"
  define f where "f = (\<lambda>j zk. if t - 1 + j < length yk1
                         then js_set None zk j (js_get None yk1 (t - 1 + j)) else zk)"
  have l1: "length yk1 = t" and g: "js_get None yk1 (t - 1) = yk ! (t - 1)"
    using t full by (auto simp add: yk1_def js_set_length_def js_get_def)
  have "\<And>j. j \<in> set [Suc 0..<t] \<Longrightarrow> f j = id"
    using l1 by (auto simp add: f_def fun_eq_iff)
  then have idl: "fold f [Suc 0..<t] = id" by (rule fold_id)
  have upt: "[0..<t] = 0 # [Suc 0..<t]" using t by (simp add: upt_rec)
  have "leaf_keys_of_z t yk = fold f [0..<t] (drop t yk)"
    unfolding leaf_keys_of_z_def Let_def f_def yk1_def upper_keys_drop [OF t full] ..
  also have "\<dots> = f 0 (drop t yk)" unfolding upt using idl by simp
  also have "\<dots> = js_set None (drop t yk) 0 (yk ! (t - 1))"
    using l1 g t by (simp add: f_def)
  also have "\<dots> = yk ! (t - 1) # drop (t + 1) yk"
  proof (cases "t = 1")
    case True
    with full show ?thesis by (simp add: js_set_def)
  next
    case False
    with t full have "t < length yk" by simp
    then have "drop t yk = yk ! t # drop (Suc t) yk" by (simp add: Cons_nth_drop_Suc)
    then show ?thesis by (simp add: js_set_def)
  qed
  finally show ?thesis .
qed

lemma BPlus_splitChild_leaf:
  assumes i: "index < length xc" and len: "index \<le> length xk"
    and y: "xc ! index = BTreeNode yk yc True" and t: "0 < t" and full: "length yk = 2 * t - 1"
  shows "BPlus_splitChild t (BTreeNode xk xc xl) index =
     Some (BTreeNode (take index xk @ yk ! (t - 1) # drop index xk)
            (take index xc @ BTreeNode (take (t - 1) yk) yc True
               # BTreeNode (yk ! (t - 1) # drop (t + 1) yk) [] True # drop (index + 1) xc) xl)"
proof -
  have g: "js_get NoNode xc index = BTreeNode yk yc True" using i y by (simp add: js_get_def)
  have yk': "js_set_length None (js_set_length None yk t) (t - 1) = take (t - 1) yk"
    using t full by (simp add: js_set_length_def min_def)
  have z0: "js_get None (leaf_keys_of_z t yk) 0 = yk ! (t - 1)"
    by (simp add: leaf_keys_of_z_full [OF t full] js_get_def)
  show ?thesis
    using g t z0 yk' js_insert_at [OF len, of None "yk ! (t - 1)"]
      parent_children_after_split [OF i]
    by (simp add: Let_def leaf_keys_of_z_full [OF t full])
qed

lemma BPlus_splitChild_inner:
  assumes i: "index < length xc" and len: "index \<le> length xk"
    and y: "xc ! index = BTreeNode yk yc False" and t: "0 < t" and full: "length yk = 2 * t - 1"
  shows "BPlus_splitChild t (BTreeNode xk xc xl) index =
     Some (BTreeNode (take index xk @ None # drop index xk)
            (take index xc @ BTreeNode (take (t - 1) yk) (js_set_length NoNode yc t) False
               # BTreeNode (drop t yk) (map (\<lambda>j. js_get NoNode yc (j + t)) [0..<t]) False
               # drop (index + 1) xc) xl)"
proof -
  have g: "js_get NoNode xc index = BTreeNode yk yc False" using i y by (simp add: js_get_def)
  have "t - 1 \<le> length yk" using t full by arith
  then have yk': "js_set_length None yk (t - 1) = take (t - 1) yk"
    by (simp add: js_set_length_def)
  have m: "js_get None (take (t - 1) yk) (t - 1) = None"
    by (simp add: js_get_def)
  show ?thesis
    using g t yk' m js_insert_at [OF len, of None None] upper_keys_drop [OF t full]
      parent_children_after_split [OF i]
    by (simp add: Let_def)
qed

section \<open>Fenwick tree: what insert stores\<close>

text \<open>
  \<open>index & (-index)\<close> is positive for an index between 1 and \<open>2^31 - 1\<close>, so the loop
  of \<open>_updateBIT\<close>, started at the last slot, runs once. A run of inserts therefore returns
  and leaves \<open>tree\<close> as the dummy slot followed by the inserted values themselves, and
  \<open>query(2)\<close> returns the second value alone.
\<close>

lemma and_not_eq_0_imp:
  assumes "(w :: 32 word) AND NOT x = 0" shows "w AND x = w"
proof -
  have "w = w AND (x OR NOT x)" by simp
  also have "\<dots> = (w AND x) OR (w AND NOT x)" by (rule bit.conj_disj_distrib)
  also have "\<dots> = w AND x" using assms by simp
  finally show ?thesis by simp
qed

lemma word_and_neg_nonzero: 
  assumes "(w :: 32 word) \<noteq> 0" shows "w AND - w \<noteq> 0"
proof
  assume "w AND - w = 0"
  then have "w AND NOT (w - 1) = 0" by (simp add: minus_eq_not_minus_1)
  then have "w AND (w - 1) = w" by (rule and_not_eq_0_imp)
  then have "w \<le> w - 1" by (metis word_and_le1)
  moreover have "w - 1 < w" using assms
    by (simp add: word_less_nat_alt unat_minus_one unat_gt_0)
  ultimately show False by simp
qed

lemma lowbit_pos:
  assumes "0 < i" "i < 2 ^ 31"
  shows "0 < lowbit i"
proof -
  define w :: "32 word" where "w = word_of_int (int i)"
  have "unat (of_nat i :: 32 word) = i"
    using assms by (simp add: unat_of_nat)
  then have uw: "uint w = int i"
    unfolding w_def by (simp add: uint_nat)
  then have w0: "w \<noteq> 0" using assms by (metis uint_0_eq of_nat_0_less_iff less_irrefl)
  have "w AND - w \<le> w" by (rule word_and_le2)
  then have "uint (w AND - w) \<le> uint w" by (simp add: word_le_def)
  with uw assms have lt: "uint (w AND - w) < 2 ^ 31" by simp
  have "uint (w AND - w) \<noteq> 0" using word_and_neg_nonzero [OF w0] by (simp add: uint_0_iff)
  then have pos: "0 < uint (w AND - w)" using uint_ge_0 [of "w AND - w"] by linarith
  have "sint (w AND - w) = uint (w AND - w)"
    using lt pos by (simp add: sint_uint signed_take_bit_int_eq_self)
  with pos have "0 < sint (w AND - w)" by simp
  then show ?thesis by (simp add: lowbit_def js_bitand_def w_def wi_hom_neg)
qed

lemma updateBIT_last:
  assumes "0 < i" "i < 2 ^ 31" "length t = Suc i"
  shows "updateBIT t i delta = Some (t[i := t ! i + delta])"
proof -
  have "length t \<le> nat (int i + lowbit i)" using lowbit_pos [OF assms(1,2)] assms(3) by simp
  then have "updateBIT (t[i := t ! i + delta]) (nat (int i + lowbit i)) delta
      = Some (t[i := t ! i + delta])"
    by (subst updateBIT.simps) simp
  then show ?thesis using assms(3) by (subst updateBIT.simps) simp
qed

lemma FenwickTree_insert_appends:
  assumes "length (tree s) = Suc (length (data s))" "Suc (length (data s)) < 2 ^ 31"
  shows "FenwickTree_insert (Some a) s
     = Some (s\<lparr> data := data s @ [a], tree := tree s @ [a], nodeCount := nodeCount s + 1 \<rparr>, [])"
proof -
  let ?i = "Suc (length (data s))"
  have "updateBIT (tree s @ [0]) ?i a = Some ((tree s @ [0])[?i := (tree s @ [0]) ! ?i + a])"
    using assms by (intro updateBIT_last) simp_all
  also have "(tree s @ [0])[?i := (tree s @ [0]) ! ?i + a] = tree s @ [a]"
    using assms(1) by (simp add: nth_append list_update_append)
  finally show ?thesis using assms(1) by (simp add: FenwickTree_insert_def Let_def)
qed

lemma FenwickTree_inserts_appends:
  assumes "length (tree s) = Suc (length (data s))" "length (data s) + length as < 2 ^ 31"
  shows "\<exists>s'. FenwickTree_inserts as s = Some s' \<and> tree s' = tree s @ as \<and>
              data s' = data s @ as"
  using assms
proof (induction as arbitrary: s)
  case Nil
  then show ?case by simp
next
  case (Cons a as)
  let ?s1 = "s\<lparr> data := data s @ [a], tree := tree s @ [a], nodeCount := nodeCount s + 1 \<rparr>"
  have i: "FenwickTree_insert (Some a) s = Some (?s1, [])"
    using Cons.prems by (intro FenwickTree_insert_appends) simp_all
  have "\<exists>s'. FenwickTree_inserts as ?s1 = Some s' \<and> tree s' = tree ?s1 @ as \<and>
              data s' = data ?s1 @ as"
    using Cons.prems by (intro Cons.IH) simp_all
  with i show ?case by simp
qed

lemma FenwickTree_inserts_tree:
  assumes "length as < 2 ^ 31"
  shows "\<exists>s. FenwickTree_inserts as FenwickTree_new = Some s \<and> tree s = 0 # as \<and> data s = as"
  using FenwickTree_inserts_appends [of FenwickTree_new as] assms
  by (simp add: FenwickTree_new_def)

lemma lowbit_2: "lowbit 2 = 2"
  by (simp add: lowbit_def js_bitand_def)

lemma query_2:
  assumes "2 < length t"
  shows "query_loop t (Num 0) 2 = Some (Num (t ! 2))"
proof -
  have "query_loop t (Num (t ! 2)) 0 = Some (Num (t ! 2))"
    by (subst query_loop.simps) simp
  then show ?thesis using assms lowbit_2
    by (subst query_loop.simps) (simp add: tree_at_def)
qed

lemma Fenwick_query_2_is_second_value:
  assumes "2 \<le> length as" "length as < 2 ^ 31"
  shows "\<exists>s. FenwickTree_inserts as FenwickTree_new = Some s \<and>
             query s 2 = Some (Num (as ! 1))"
proof -
  from FenwickTree_inserts_tree [OF assms(2)] obtain s where
    s: "FenwickTree_inserts as FenwickTree_new = Some s" "tree s = 0 # as" by blast
  have "query s 2 = Some (Num (tree s ! 2))"
    unfolding query_def using s(2) assms(1) by (intro query_2) simp
  with s assms(1) show ?thesis by (simp add: numeral_2_eq_2)
qed

section \<open>Trie: the empty word\<close>

lemma toLowerCase_Nil_iff [simp]: "toLowerCase w = [] \<longleftrightarrow> w = []"
  by (simp add: toLowerCase_def)

chapter \<open>The claims\<close>

text \<open>
  C1 (Fenwick prefix sums). The claim: after inserting \<open>a1..an\<close> into a new tree,
  \<open>query(i)\<close> is \<open>a1 + ... + ai\<close> for \<open>1 \<le> i \<le> n\<close>. The code does not do that:
  \<open>insert\<close> grows \<open>tree\<close> by one slot and then calls \<open>_updateBIT\<close>, whose loop
  stops at \<open>tree.length\<close>, so only the new slot receives the value and no later slot
  ever sees it (\<open>FenwickTree_inserts_tree\<close>). After inserting 1 and 2 the array is
  [0, 1, 2] and \<open>query(2)\<close> returns 2 where the prefix sum is 3; after any two or more
  inserts \<open>query(2)\<close> returns the second value alone
  (\<open>Fenwick_query_2_is_second_value\<close>).
\<close>

theorem C1_Fenwick_query_misses_prefix_sum:
  "FenwickTree_inserts [1, 2] FenwickTree_new
     = Some \<lparr> root = (), nodeCount = 2, tree = [0, 1, 2], data = [1, 2] \<rparr>
   \<and> query \<lparr> root = (), nodeCount = 2, tree = [0, 1, 2], data = [1, 2] \<rparr> 2 = Some (Num 2)
   \<and> sum_list (take 2 [1, 2 :: int]) = 3"
  by code_simp

text \<open>
  C2 (in-order traversal after inserts). For every sequence of inserts into a new BST, AVL
  tree or Red-Black tree, every insert returns, and the values an in-order traversal of the
  resulting tree visits are in non-decreasing order; they are the inserted values.
\<close>

theorem C2_inorder_sorted_after_inserts:
  "(\<exists>s. BST_inserts vs BinTree_new = Some s \<and> sorted (getValues (root s)) \<and>
        set (getValues (root s)) = set vs) \<and>
   (\<exists>s. AVL_inserts vs BinTree_new = Some s \<and> sorted (getValues (root s)) \<and>
        set (getValues (root s)) = set vs) \<and>
   (\<exists>s. RB_inserts vs BinTree_new = Some s \<and> sorted (getValues (root s)) \<and>
        set (getValues (root s)) = set vs)"
proof (intro conjI)
  from BST_inserts_bst [of BinTree_new vs]
  show "\<exists>s. BST_inserts vs BinTree_new = Some s \<and> sorted (getValues (root s)) \<and>
        set (getValues (root s)) = set vs"
    using bst_sorted by (auto simp add: values_of_def BinTree_new_def)
  from AVL_inserts_inv [of BinTree_new vs]
  show "\<exists>s. AVL_inserts vs BinTree_new = Some s \<and> sorted (getValues (root s)) \<and>
        set (getValues (root s)) = set vs"
    using bst_sorted by (auto simp add: values_of_def BinTree_new_def)
  from RB_inserts_bst [of BinTree_new vs]
  show "\<exists>s. RB_inserts vs BinTree_new = Some s \<and> sorted (getValues (root s)) \<and>
        set (getValues (root s)) = set vs"
    using bst_sorted by (auto simp add: values_of_def BinTree_new_def)
qed

theorem C2_witness:
  "BST_inserts [50, 30, 70, 20, 40, 60, 80] BinTree_new =
     Some \<lparr> root = Node (Node (Node Null 20 1 RED Null) 30 1 RED (Node Null 40 1 RED Null))
                      50 1 RED
                      (Node (Node Null 60 1 RED Null) 70 1 RED (Node Null 80 1 RED Null)),
            nodeCount = 7 \<rparr> \<and>
   sorted [20, 30, 40, 50, 60, 70, 80 :: int]"
proof -
  let ?vs = "[50, 30, 70, 20, 40, 60, 80]"
  let ?s = "\<lparr> root = Node (Node (Node Null 20 1 RED Null) 30 1 RED (Node Null 40 1 RED Null))
                      50 1 RED
                      (Node (Node Null 60 1 RED Null) 70 1 RED (Node Null 80 1 RED Null)),
            nodeCount = 7 \<rparr>"
  have e: "BST_inserts ?vs BinTree_new = Some ?s" by code_simp
  from C2_inorder_sorted_after_inserts [of ?vs, THEN conjunct1]
  have "sorted (getValues (root ?s))" unfolding e by simp
  then have "sorted [20, 30, 40, 50, 60, 70, 80 :: int]" by simp
  with e show ?thesis by simp
qed

text \<open>
  C3 (unsupported delete). For every state and every argument, \<open>delete\<close> of the
  Segment tree, the Fenwick tree, the B-Tree and the B+ Tree returns false, emits nothing
  and leaves the state as it was. The functions are total: there is no path that throws.
\<close>

theorem C3_delete_unsupported_returns_false:
  "SegmentTree_delete a s1 = (False, s1, []) \<and>
   FenwickTree_delete b s2 = (False, s2, []) \<and>
   BTree_delete c s3 = (False, s3, []) \<and>
   BPlus_delete d s4 = (False, s4, [])"
  by (simp add: SegmentTree_delete_def FenwickTree_delete_def BTree_delete_def BPlus_delete_def)

text \<open>
  C4 (completion events). The claim: every structure emits a completion event, carrying
  the value and the tree, from every insert that adds an element and every delete that
  removes one. It fails for the B-Tree, whose \<open>insert\<close> adds 5 to a new tree and emits
  nothing; the classes \<open>BTree\<close>, \<open>BPlusTree\<close>, \<open>SegmentTree\<close> and \<open>FenwickTree\<close>
  never call the event bus.
\<close>

theorem C4_counterexample:
  "BTree_insert 5 (BTree_new 2) =
     Some (\<lparr> root = BTreeNode [Some 5] [] True, nodeCount = 1, degree = 2 \<rparr>, [])"
  by (simp add: BTree_insert_def BTree_new_def)

text \<open>
  C4 as the code has it. Every \<open>insert\<close> that returns on the BST, the AVL tree, the
  Red-Black tree and the heap, and every \<open>insert\<close> of a non-empty string that returns on
  the trie, emits exactly one \<open>NODE_INSERTED\<close> with the value (for the trie: the
  lower-cased word) and the tree in its final state. Every \<open>delete\<close> that returns true
  on the BST, the AVL tree, the heap and the trie emits exactly one \<open>NODE_DELETED\<close> with
  the value (for the heap: the removed minimum) and the tree in its final state; so does a
  \<open>delete\<close> on the Red-Black tree that returns true and leaves the tree non-empty. Every
  \<open>insert\<close> that returns on the B-Tree, the B+ Tree, the Segment tree and the Fenwick
  tree emits nothing.
\<close>

theorem C4_emissions_of_completed_mutations:
  "(BST_insert v s = Some (s1, e1) \<longrightarrow> e1 = [NODE_INSERTED v s1]) \<and>
   (AVL_insert v s = Some (s2, e2) \<longrightarrow> e2 = [NODE_INSERTED v s2]) \<and>
   (RB_insert v s = Some (s3, e3) \<longrightarrow> e3 = [NODE_INSERTED v s3]) \<and>
   (MinHeap_insert v h = (h4, e4) \<longrightarrow> e4 = [NODE_INSERTED v h4]) \<and>
   (w \<noteq> [] \<and> Trie_insert (JString w) tr = Some (tr5, e5) \<longrightarrow>
      e5 = [NODE_INSERTED (toLowerCase w) tr5]) \<and>
   (BST_delete v s = Some (True, s6, e6) \<longrightarrow> e6 = [NODE_DELETED v s6]) \<and>
   (AVL_delete v s = Some (True, s7, e7) \<longrightarrow> e7 = [NODE_DELETED v s7]) \<and>
   (RB_delete v s = Some (True, s8, e8) \<and> root s8 \<noteq> Null \<longrightarrow> e8 = [NODE_DELETED v s8]) \<and>
   (MinHeap_delete h = (True, h9, e9) \<longrightarrow> e9 = [NODE_DELETED (array h ! 0) h9]) \<and>
   (Trie_delete (JString w) tr = Some (True, tr10, e10) \<longrightarrow>
      e10 = [NODE_DELETED (toLowerCase w) tr10]) \<and>
   (BTree_insert v bt = Some (bt11, e11) \<longrightarrow> e11 = []) \<and>
   (BPlus_insert v bp = Some (bp12, e12) \<longrightarrow> e12 = []) \<and>
   (SegmentTree_insert pv sg = Some (sg13, e13) \<longrightarrow> e13 = []) \<and>
   (FenwickTree_insert pv fw = Some (fw14, e14) \<longrightarrow> e14 = [])"
proof (intro conjI impI)
  assume "BST_insert v s = Some (s1, e1)"
  then show "e1 = [NODE_INSERTED v s1]"
    by (auto simp add: BST_insert_def Let_def split: if_splits option.splits)
next
  assume "AVL_insert v s = Some (s2, e2)"
  then show "e2 = [NODE_INSERTED v s2]"
    by (auto simp add: AVL_insert_def Let_def split: option.splits)
next
  assume "RB_insert v s = Some (s3, e3)"
  then show "e3 = [NODE_INSERTED v s3]"
    by (auto simp add: RB_insert_def Let_def split: option.splits)
next
  assume "MinHeap_insert v h = (h4, e4)"
  then show "e4 = [NODE_INSERTED v h4]"
    by (auto simp add: MinHeap_insert_def Let_def)
next
  assume "w \<noteq> [] \<and> Trie_insert (JString w) tr = Some (tr5, e5)"
  then show "e5 = [NODE_INSERTED (toLowerCase w) tr5]"
    by (auto simp add: Trie_insert_def Let_def split: option.splits prod.splits)
next
  assume "BST_delete v s = Some (True, s6, e6)"
  then show "e6 = [NODE_DELETED v s6]"
    by (auto simp add: BST_delete_def Let_def split: option.splits if_splits)
next
  assume "AVL_delete v s = Some (True, s7, e7)"
  then show "e7 = [NODE_DELETED v s7]"
    by (auto simp add: AVL_delete_def Let_def split: option.splits if_splits)
next
  assume "RB_delete v s = Some (True, s8, e8) \<and> root s8 \<noteq> Null"
  then show "e8 = [NODE_DELETED v s8]"
    by (auto simp add: RB_delete_def Let_def split: option.splits if_splits)
next
  assume "MinHeap_delete h = (True, h9, e9)"
  then show "e9 = [NODE_DELETED (array h ! 0) h9]"
    by (auto simp add: MinHeap_delete_def Let_def split: if_splits)
next
  assume "Trie_delete (JString w) tr = Some (True, tr10, e10)"
  then show "e10 = [NODE_DELETED (toLowerCase w) tr10]"
    by (auto simp add: Trie_delete_def Let_def split: option.splits prod.splits if_splits)
next
  assume "BTree_insert v bt = Some (bt11, e11)"
  then show "e11 = []"
    by (auto simp add: BTree_insert_def split: BTreeNode.splits option.splits if_splits)
next
  assume "BPlus_insert v bp = Some (bp12, e12)"
  then show "e12 = []"
    by (auto simp add: BPlus_insert_def split: BTreeNode.splits option.splits if_splits)
next
  assume "SegmentTree_insert pv sg = Some (sg13, e13)"
  then show "e13 = []"
    by (auto simp add: SegmentTree_insert_def Let_def split: option.splits)
next
  assume "FenwickTree_insert pv fw = Some (fw14, e14)"
  then show "e14 = []"
    by (auto simp add: FenwickTree_insert_def Let_def split: option.splits)
qed

theorem C4_witness:
  "BST_insert 5 BinTree_new
     = Some (\<lparr>root = Node Null 5 1 RED Null, nodeCount = 1\<rparr>,
             [NODE_INSERTED 5 \<lparr>root = Node Null 5 1 RED Null, nodeCount = 1\<rparr>]) \<and>
   AVL_insert 5 BinTree_new
     = Some (\<lparr>root = Node Null 5 1 RED Null, nodeCount = 1\<rparr>,
             [NODE_INSERTED 5 \<lparr>root = Node Null 5 1 RED Null, nodeCount = 1\<rparr>]) \<and>
   RB_insert 5 BinTree_new
     = Some (\<lparr>root = Node Null 5 1 BLACK Null, nodeCount = 1\<rparr>,
             [NODE_INSERTED 5 \<lparr>root = Node Null 5 1 BLACK Null, nodeCount = 1\<rparr>]) \<and>
   MinHeap_insert 5 MinHeap_new
     = (\<lparr>root = Node Null 5 1 RED Null, nodeCount = 1, array = [5]\<rparr>,
        [NODE_INSERTED 5 \<lparr>root = Node Null 5 1 RED Null, nodeCount = 1, array = [5]\<rparr>]) \<and>
   Trie_insert (JString ''A'') Trie_new
     = Some (\<lparr>root = Some (TrieNode ''ROOT'' [(CHR ''a'', TrieNode ''a'' [] True)] False),
              nodeCount = 1, wordCount = 1\<rparr>,
             [NODE_INSERTED ''a''
                \<lparr>root = Some (TrieNode ''ROOT'' [(CHR ''a'', TrieNode ''a'' [] True)] False),
                 nodeCount = 1, wordCount = 1\<rparr>]) \<and>
   BST_delete 5 \<lparr>root = Node Null 5 1 RED Null, nodeCount = 1\<rparr>
     = Some (True, \<lparr>root = Null, nodeCount = 0\<rparr>,
             [NODE_DELETED 5 \<lparr>root = Null, nodeCount = 0\<rparr>]) \<and>
   AVL_delete 5 \<lparr>root = Node Null 5 1 RED Null, nodeCount = 1\<rparr>
     = Some (True, \<lparr>root = Null, nodeCount = 0\<rparr>,
             [NODE_DELETED 5 \<lparr>root = Null, nodeCount = 0\<rparr>]) \<and>
   RB_delete 5 \<lparr>root = Node Null 5 1 BLACK (Node Null 7 1 RED Null), nodeCount = 2\<rparr>
     = Some (True, \<lparr>root = Node Null 7 1 BLACK Null, nodeCount = 1\<rparr>,
             [NODE_DELETED 5 \<lparr>root = Node Null 7 1 BLACK Null, nodeCount = 1\<rparr>]) \<and>
   MinHeap_delete \<lparr>root = Node Null 5 1 RED Null, nodeCount = 1, array = [5]\<rparr>
     = (True, \<lparr>root = Null, nodeCount = 0, array = []\<rparr>,
        [NODE_DELETED 5 \<lparr>root = Null, nodeCount = 0, array = []\<rparr>]) \<and>
   Trie_delete (JString ''A'')
       \<lparr>root = Some (TrieNode ''ROOT'' [(CHR ''a'', TrieNode ''a'' [] True)] False),
        nodeCount = 1, wordCount = 1\<rparr>
     = Some (True, \<lparr>root = Some (TrieNode ''ROOT'' [] False), nodeCount = 0, wordCount = 0\<rparr>,
             [NODE_DELETED ''a''
                \<lparr>root = Some (TrieNode ''ROOT'' [] False), nodeCount = 0, wordCount = 0\<rparr>]) \<and>
   BTree_insert 5 (BTree_new 2)
     = Some (\<lparr>root = BTreeNode [Some 5] [] True, nodeCount = 1, degree = 2\<rparr>, []) \<and>
   BPlus_insert 5 (BPlusTree_new 2)
     = Some (\<lparr>root = BTreeNode [Some 5] [] True, nodeCount = 1, bdegree = 2\<rparr>, []) \<and>
   SegmentTree_insert (Some 5) SegmentTree_new
     = Some (\<lparr>root = SegNode SegNull (Num 5) 0 0 SegNull, nodeCount = 1, seg_data = [5]\<rparr>, []) \<and>
   FenwickTree_insert (Some 5) FenwickTree_new
     = Some (\<lparr>root = (), nodeCount = 1, tree = [0, 5], data = [5]\<rparr>, [])"
proof -
  let ?b1 = "\<lparr>root = Node Null 5 1 RED Null, nodeCount = 1\<rparr>"
  let ?b0 = "\<lparr>root = Null, nodeCount = 0\<rparr> :: BinTree"
  let ?r1 = "\<lparr>root = Node Null 5 1 BLACK Null, nodeCount = 1\<rparr>"
  let ?r2 = "\<lparr>root = Node Null 5 1 BLACK (Node Null 7 1 RED Null), nodeCount = 2\<rparr>"
  let ?r3 = "\<lparr>root = Node Null 7 1 BLACK Null, nodeCount = 1\<rparr>"
  let ?h1 = "\<lparr>root = Node Null 5 1 RED Null, nodeCount = 1, array = [5]\<rparr>"
  let ?h0 = "\<lparr>root = Null, nodeCount = 0, array = []\<rparr>"
  let ?t1 = "\<lparr>root = Some (TrieNode ''ROOT'' [(CHR ''a'', TrieNode ''a'' [] True)] False),
              nodeCount = 1, wordCount = 1\<rparr>"
  let ?t0 = "\<lparr>root = Some (TrieNode ''ROOT'' [] False), nodeCount = 0, wordCount = 0\<rparr>"
  let ?bt = "\<lparr>root = BTreeNode [Some 5] [] True, nodeCount = 1, degree = 2\<rparr>"
  let ?bp = "\<lparr>root = BTreeNode [Some 5] [] True, nodeCount = 1, bdegree = 2\<rparr>"
  let ?sg = "\<lparr>root = SegNode SegNull (Num 5) 0 0 SegNull, nodeCount = 1, seg_data = [5]\<rparr>"
  let ?fw = "\<lparr>root = (), nodeCount = 1, tree = [0, 5], data = [5]\<rparr>"
  have h1: "BST_insert 5 BinTree_new = Some (?b1, [NODE_INSERTED 5 ?b1])" by code_simp
  have h2: "AVL_insert 5 BinTree_new = Some (?b1, [NODE_INSERTED 5 ?b1])" by code_simp
  have h3: "RB_insert 5 BinTree_new = Some (?r1, [NODE_INSERTED 5 ?r1])" by code_simp
  have h4: "MinHeap_insert 5 MinHeap_new = (?h1, [NODE_INSERTED 5 ?h1])" by code_simp
  have h5: "''A'' \<noteq> [] \<and> Trie_insert (JString ''A'') Trie_new = Some (?t1, [NODE_INSERTED ''a'' ?t1])"
    by code_simp
  have h6: "BST_delete 5 ?b1 = Some (True, ?b0, [NODE_DELETED 5 ?b0])" by code_simp
  have h7: "AVL_delete 5 ?b1 = Some (True, ?b0, [NODE_DELETED 5 ?b0])" by code_simp
  have h8: "RB_delete 5 ?r2 = Some (True, ?r3, [NODE_DELETED 5 ?r3]) \<and> root ?r3 \<noteq> Null"
    by code_simp
  have h9: "MinHeap_delete ?h1 = (True, ?h0, [NODE_DELETED 5 ?h0])" by code_simp
  have h10: "Trie_delete (JString ''A'') ?t1 = Some (True, ?t0, [NODE_DELETED ''a'' ?t0])"
    by code_simp
  have h11: "BTree_insert 5 (BTree_new 2) = Some (?bt, [])" by code_simp
  have h12: "BPlus_insert 5 (BPlusTree_new 2) = Some (?bp, [])" by code_simp
  have h13: "SegmentTree_insert (Some 5) SegmentTree_new = Some (?sg, [])" by code_simp
  have h14: "FenwickTree_insert (Some 5) FenwickTree_new = Some (?fw, [])" by code_simp
  note c1 = C4_emissions_of_completed_mutations [THEN conjunct1, THEN mp, OF h1]
  note c2 = C4_emissions_of_completed_mutations [THEN conjunct2, THEN conjunct1, THEN mp, OF h2]
  note c3 = C4_emissions_of_completed_mutations [THEN conjunct2, THEN conjunct2, THEN conjunct1, THEN mp, OF h3]
  note c4 = C4_emissions_of_completed_mutations [THEN conjunct2, THEN conjunct2, THEN conjunct2, THEN conjunct1, THEN mp, OF h4]
  note c5 = C4_emissions_of_completed_mutations [THEN conjunct2, THEN conjunct2, THEN conjunct2, THEN conjunct2, THEN conjunct1, THEN mp, OF h5]
  note c6 = C4_emissions_of_completed_mutations [THEN conjunct2, THEN conjunct2, THEN conjunct2, THEN conjunct2, THEN conjunct2, THEN conjunct1, THEN mp, OF h6]
  note c7 = C4_emissions_of_completed_mutations [THEN conjunct2, THEN conjunct2, THEN conjunct2, THEN conjunct2, THEN conjunct2, THEN conjunct2, THEN conjunct1, THEN mp, OF h7]
  note c8 = C4_emissions_of_completed_mutations [THEN conjunct2, THEN conjunct2, THEN conjunct2, THEN conjunct2, THEN conjunct2, THEN conjunct2, THEN conjunct2, THEN conjunct1, THEN mp, OF h8]
  note c9 = C4_emissions_of_completed_mutations [THEN conjunct2, THEN conjunct2, THEN conjunct2, THEN conjunct2, THEN conjunct2, THEN conjunct2, THEN conjunct2, THEN conjunct2, THEN conjunct1, THEN mp, OF h9]
  note c10 = C4_emissions_of_completed_mutations [THEN conjunct2, THEN conjunct2, THEN conjunct2, THEN conjunct2, THEN conjunct2, THEN conjunct2, THEN conjunct2, THEN conjunct2, THEN conjunct2, THEN conjunct1, THEN mp, OF h10]
  note c11 = C4_emissions_of_completed_mutations [THEN conjunct2, THEN conjunct2, THEN conjunct2, THEN conjunct2, THEN conjunct2, THEN conjunct2, THEN conjunct2, THEN conjunct2, THEN conjunct2, THEN conjunct2, THEN conjunct1, THEN mp, OF h11]
  note c12 = C4_emissions_of_completed_mutations [THEN conjunct2, THEN conjunct2, THEN conjunct2, THEN conjunct2, THEN conjunct2, THEN conjunct2, THEN conjunct2, THEN conjunct2, THEN conjunct2, THEN conjunct2, THEN conjunct2, THEN conjunct1, THEN mp, OF h12]
  note c13 = C4_emissions_of_completed_mutations [THEN conjunct2, THEN conjunct2, THEN conjunct2, THEN conjunct2, THEN conjunct2, THEN conjunct2, THEN conjunct2, THEN conjunct2, THEN conjunct2, THEN conjunct2, THEN conjunct2, THEN conjunct2, THEN conjunct1, THEN mp, OF h13]
  note c14 = C4_emissions_of_completed_mutations [THEN conjunct2, THEN conjunct2, THEN conjunct2, THEN conjunct2, THEN conjunct2, THEN conjunct2, THEN conjunct2, THEN conjunct2, THEN conjunct2, THEN conjunct2, THEN conjunct2, THEN conjunct2, THEN conjunct2, THEN mp, OF h14]
  from c1 c2 c3 c4 c5 c6 c7 c8 c9 c10 c11 c12 c13 c14
    h1 h2 h3 h4 h5 h6 h7 h8 h9 h10 h11 h12 h13 h14
  show ?thesis by (intro conjI) (erule conjunct2 | assumption | erule conjunct1)+
qed

text \<open>
  C5 (AVL balance). After every sequence of inserts and deletes on a new AVL tree every
  call has returned, every node of the tree has a balance factor of -1, 0 or 1
  (\<open>balanced\<close>, on the heights computed from the shape), and the class's own check
  \<open>isBalanced\<close>, which reads the stored heights, agrees.
\<close>

theorem C5_AVL_balance_factor_invariant:
  "\<exists>s. AVL_run ops BinTree_new = Some s \<and> balanced (root s) \<and> checkBalance (root s)"
  using AVL_run_inv [of BinTree_new ops] avl_balanced avl_checkBalance by auto

theorem C5_witness:
  "AVL_run [Insert 1, Insert 2, Insert 3, Delete 1] BinTree_new =
     Some \<lparr> root = Node Null 2 2 RED (Node Null 3 1 RED Null), nodeCount = 2 \<rparr> \<and>
   balanced (Node Null 2 2 RED (Node Null 3 1 RED Null))"
proof -
  let ?ops = "[Insert 1, Insert 2, Insert 3, Delete 1]"
  let ?s = "\<lparr> root = Node Null 2 2 RED (Node Null 3 1 RED Null), nodeCount = 2 \<rparr>"
  have e: "AVL_run ?ops BinTree_new = Some ?s" by code_simp
  from C5_AVL_balance_factor_invariant [of ?ops]
  have "balanced (root ?s)" unfolding e by simp
  with e show ?thesis by simp
qed

text \<open>
  C6 (B-Tree shape). The claim: after any sequence of inserts into a new B-Tree of minimum
  degree \<open>t\<close>, every node other than the root holds between \<open>t - 1\<close> and \<open>2t - 1\<close> keys,
  and every leaf is at the same depth. The second half holds, and so does the first for
  the length of the key arrays (\<open>BTree_inserts_shape\<close>). The first half does not hold for
  the keys: \<open>_splitChild\<close> runs \<open>x.keys[i] = y.keys[t - 1]\<close> after
  \<open>y.keys.length = t - 1\<close>, so the median of a split node is dropped and the separator
  stored in the parent is \<open>undefined\<close>. With \<open>t = 2\<close>, the fourth insert splits the root
  [1, 2, 3]: the new root's only slot is \<open>undefined\<close> and 2 is in no node. After the
  inserts 1, 2, ..., 10 the two inner nodes below the root hold no key at all, fewer than
  \<open>t - 1 = 1\<close>.
\<close>

theorem C6_BTree_inner_nodes_hold_no_keys:
  "BTree_inserts [1, 2, 3, 4] (BTree_new 2)
     = Some \<lparr> root = BTreeNode [None]
                       [BTreeNode [Some 1] [] True, BTreeNode [Some 3, Some 4] [] True] False,
              nodeCount = 4, degree = 2 \<rparr> \<and>
   BTree_inserts [1, 2, 3, 4, 5, 6, 7, 8, 9, 10] (BTree_new 2)
     = Some \<lparr> root = BTreeNode [None]
                       [BTreeNode [None]
                          [BTreeNode [Some 1] [] True, BTreeNode [Some 3, Some 6] [] True] False,
                        BTreeNode [None]
                          [BTreeNode [Some 5, Some 9] [] True, BTreeNode [Some 8, Some 10] [] True]
                          False]
                       False,
              nodeCount = 10, degree = 2 \<rparr> \<and>
   map key_count
     (descendants (BTreeNode [None]
                       [BTreeNode [None]
                          [BTreeNode [Some 1] [] True, BTreeNode [Some 3, Some 6] [] True] False,
                        BTreeNode [None]
                          [BTreeNode [Some 5, Some 9] [] True, BTreeNode [Some 8, Some 10] [] True]
                          False]
                       False))
     = [0, 1, 2, 0, 2, 2] \<and>
   key_count (BTreeNode [None]
                [BTreeNode [Some 1] [] True, BTreeNode [Some 3, Some 6] [] True] False) = 0 \<and>
   (0 :: nat) < 2 - 1 \<and>
   leaf_depths (BTreeNode [None]
                       [BTreeNode [None]
                          [BTreeNode [Some 1] [] True, BTreeNode [Some 3, Some 6] [] True] False,
                        BTreeNode [None]
                          [BTreeNode [Some 5, Some 9] [] True, BTreeNode [Some 8, Some 10] [] True]
                          False]
                       False)
     = [2, 2, 2, 2]"
  by code_simp

text \<open>
  C7 (delete removes the minimum). On a state whose array has the heap property and is
  not empty, \<open>delete()\<close> returns true, announces the least element of the array and
  leaves the array with exactly one occurrence of that element removed. Every non-empty
  heap that inserts and deletes build from a new one is such a state. Consequently the
  values announced by as many deletes as there were inserts are the inserted values in
  non-decreasing order (for 7 values as for any other number).
\<close>

theorem C7_MinHeap_delete_removes_minimum:
  "(\<forall>s. heap_property (array s) \<and> array s \<noteq> [] \<longrightarrow>
      (\<exists>s'. MinHeap_delete s = (True, s', [NODE_DELETED (Min (set (array s))) s']) \<and>
            mset (array s') = mset (array s) - {#Min (set (array s))#})) \<and>
   (\<forall>ops. array (heap_run ops) \<noteq> [] \<longrightarrow>
      (\<exists>s'. MinHeap_delete (heap_run ops)
              = (True, s', [NODE_DELETED (Min (set (array (heap_run ops)))) s']) \<and>
            mset (array s') = mset (array (heap_run ops)) - {#Min (set (array (heap_run ops)))#})) \<and>
   (\<forall>vs. deleted_values (length vs) (heap_run (map HInsert vs)) = sort vs)"
proof (intro conjI allI impI)
  fix s :: MinHeap assume "heap_property (array s) \<and> array s \<noteq> []"
  then show "\<exists>s'. MinHeap_delete s = (True, s', [NODE_DELETED (Min (set (array s))) s']) \<and>
            mset (array s') = mset (array s) - {#Min (set (array s))#}"
    using MinHeap_delete_nonempty [of s] heap_root_Min [of "array s"] by simp
next
  fix ops assume ne: "array (heap_run ops) \<noteq> []"
  let ?s = "heap_run ops"
  have "heap_property (array ?s)" by (rule heap_run_property)
  with ne show "\<exists>s'. MinHeap_delete ?s = (True, s', [NODE_DELETED (Min (set (array ?s))) s']) \<and>
            mset (array s') = mset (array ?s) - {#Min (set (array ?s))#}"
    using MinHeap_delete_nonempty [of ?s] heap_root_Min [of "array ?s"] by simp
next
  fix vs :: "int list"
  let ?s = "heap_run (map HInsert vs)"
  have m: "mset (array ?s) = mset vs"
    by (simp add: heap_run_def heap_inserts_mset MinHeap_new_def)
  then have "length vs = length (array ?s)" by (metis size_mset)
  then have "deleted_values (length vs) ?s = sort (array ?s)"
    using deleted_values_sort [OF heap_run_property] by simp
  also have "\<dots> = sort vs" using m by (metis properties_for_sort sorted_sort mset_sort)
  finally show "deleted_values (length vs) ?s = sort vs" .
qed

theorem C7_witness:
  "heap_property (array \<lparr> root = Null, nodeCount = 3, array = [1, 3, 2] \<rparr>) \<and>
   array \<lparr> root = Null, nodeCount = 3, array = [1, 3, 2] \<rparr> \<noteq> [] \<and>
   (\<exists>s'. MinHeap_delete \<lparr> root = Null, nodeCount = 3, array = [1, 3, 2] \<rparr>
            = (True, s', [NODE_DELETED 1 s']) \<and> mset (array s') = {#3, 2#}) \<and>
   array (heap_run [HInsert 5, HInsert 3, HInsert 8]) = [3, 5, 8] \<and>
   (\<exists>s'. MinHeap_delete (heap_run [HInsert 5, HInsert 3, HInsert 8])
            = (True, s', [NODE_DELETED 3 s']) \<and> mset (array s') = {#5, 8#}) \<and>
   deleted_values 7 (heap_run (map HInsert [5, 3, 8, 1, 9, 2, 7])) = [1, 2, 3, 5, 7, 8, 9]"
proof -
  let ?s = "\<lparr> root = Null, nodeCount = 3, array = [1, 3, 2] \<rparr>"
  have "heap_property [1, 3, 2]" by code_simp
  then have h: "heap_property (array ?s) \<and> array ?s \<noteq> []" by simp
  have m: "Min (set (array ?s)) = 1" by simp
  have d: "mset (array ?s) - {#1#} = {#3, 2#}" by simp
  from C7_MinHeap_delete_removes_minimum [THEN conjunct1, rule_format, OF h]
  have e: "\<exists>s'. MinHeap_delete ?s = (True, s', [NODE_DELETED 1 s']) \<and> mset (array s') = {#3, 2#}"
    unfolding m d .
  let ?ops = "[HInsert 5, HInsert 3, HInsert 8]"
  have a: "array (heap_run ?ops) = [3, 5, 8]" by code_simp
  then have ne: "array (heap_run ?ops) \<noteq> []" by simp
  have m2: "Min (set [3, 5, 8 :: int]) = 3" by simp
  have d2: "mset [3, 5, 8 :: int] - {#3#} = {#5, 8#}" by simp
  from C7_MinHeap_delete_removes_minimum [THEN conjunct2, THEN conjunct1, rule_format, OF ne]
  have r: "\<exists>s'. MinHeap_delete (heap_run ?ops) = (True, s', [NODE_DELETED 3 s']) \<and>
             mset (array s') = {#5, 8#}"
    unfolding a m2 d2 .
  have l: "length [5, 3, 8, 1, 9, 2, 7 :: int] = 7" by simp
  have srt: "sort [5, 3, 8, 1, 9, 2, 7 :: int] = [1, 2, 3, 5, 7, 8, 9]" by simp
  from C7_MinHeap_delete_removes_minimum [THEN conjunct2, THEN conjunct2, rule_format,
      of "[5, 3, 8, 1, 9, 2, 7]"]
  have v: "deleted_values 7 (heap_run (map HInsert [5, 3, 8, 1, 9, 2, 7])) = [1, 2, 3, 5, 7, 8, 9]"
    unfolding l srt .
  from h e a r v show ?thesis by simp
qed

text \<open>
  C8 (heap property). After every sequence of inserts and deletes on a new heap, every
  slot of the array is at most each of its children that exist.
\<close>

theorem C8_MinHeap_property_invariant:
  "heap_property (array (heap_run ops))"
  by (rule heap_run_property)

theorem C8_witness:
  "array (heap_run [HInsert 5, HInsert 3, HInsert 8, HInsert 1, HDelete]) = [3, 5, 8] \<and>
   (3::int) \<le> 5 \<and> (3::int) \<le> 8"
proof -
  let ?ops = "[HInsert 5, HInsert 3, HInsert 8, HInsert 1, HDelete]"
  have a: "array (heap_run ?ops) = [3, 5, 8]" by code_simp
  from C8_MinHeap_property_invariant [of ?ops]
  have "heap_property [3, 5, 8]" unfolding a .
  then have "[3, 5, 8 :: int] ! 0 \<le> [3, 5, 8] ! (2 * 0 + 1) \<and>
             [3, 5, 8 :: int] ! 0 \<le> [3, 5, 8] ! (2 * 0 + 2)"
    unfolding heap_property_def by simp
  then show ?thesis using a by simp
qed

text \<open>
  C9 (B+ splits). The claim has two halves. The leaf half holds (\<open>BPlus_splitChild_leaf\<close>),
  here at the first split: the full leaf [10, 20, 30] is split, the middle key 20 is stored
  in the parent and is the first key of the new right leaf. The inner half does not hold
  (\<open>BPlus_splitChild_inner\<close>): after the inserts 10, 20, ..., 80 the root is the full inner
  node [20, 40, 60]; \<open>insert(90)\<close> puts it under a new root and splits it, and the new
  root's key is \<open>undefined\<close>: the middle key 40 is in neither child and not in the parent
  either, because \<open>x.keys[index] = y.keys[t - 1]\<close> runs after \<open>y.keys.length = t - 1\<close>.
\<close>

theorem C9_BPlus_inner_split_loses_middle_key:
  "BPlus_splitChild 2 (BTreeNode [] [BTreeNode [Some 10, Some 20, Some 30] [] True] False) 0
     = Some (BTreeNode [Some 20]
               [BTreeNode [Some 10] [] True, BTreeNode [Some 20] [] True] False) \<and>
   BPlus_inserts [10, 20, 30, 40, 50, 60, 70, 80] (BPlusTree_new 2)
     = Some \<lparr> root = BTreeNode [Some 20, Some 40, Some 60]
                       [BTreeNode [Some 10] [] True, BTreeNode [Some 20] [] True,
                        BTreeNode [Some 40] [] True, BTreeNode [Some 60, Some 80] [] True]
                       False,
              nodeCount = 8, bdegree = 2 \<rparr> \<and>
   BPlus_splitChild 2
       (BTreeNode []
          [BTreeNode [Some 20, Some 40, Some 60]
             [BTreeNode [Some 10] [] True, BTreeNode [Some 20] [] True,
              BTreeNode [Some 40] [] True, BTreeNode [Some 60, Some 80] [] True]
             False]
          False) 0
     = Some (BTreeNode [None]
               [BTreeNode [Some 20]
                  [BTreeNode [Some 10] [] True, BTreeNode [Some 20] [] True] False,
                BTreeNode [Some 60]
                  [BTreeNode [Some 40] [] True, BTreeNode [Some 60, Some 80] [] True] False]
               False) \<and>
   BPlus_insert 90
       \<lparr> root = BTreeNode [Some 20, Some 40, Some 60]
                  [BTreeNode [Some 10] [] True, BTreeNode [Some 20] [] True,
                   BTreeNode [Some 40] [] True, BTreeNode [Some 60, Some 80] [] True]
                  False,
         nodeCount = 8, bdegree = 2 \<rparr>
     = Some (\<lparr> root = BTreeNode [None]
                      [BTreeNode [Some 20]
                         [BTreeNode [Some 10] [] True, BTreeNode [Some 20] [] True] False,
                       BTreeNode [Some 60]
                         [BTreeNode [Some 40] [] True,
                          BTreeNode [Some 60, Some 80, Some 90] [] True] False]
                      False,
               nodeCount = 9, bdegree = 2 \<rparr>, [])"
  by code_simp

text \<open>
  C10 (cleared trie). The claim: after \<open>clear()\<close> the root is \<open>null\<close> and every later
  \<open>insert\<close>, \<open>search\<close> or \<open>startsWith\<close> fails on it. The root is \<open>null\<close>, but a call
  with the empty string never reaches the root: \<open>startsWith('')\<close> returns true, and
  \<open>insert('')\<close> and \<open>search('')\<close> return through their argument check.
\<close>

theorem C10_counterexample:
  "Trie_startsWith (JString []) (fst (Trie_clear Trie_new)) = Some True \<and>
   Trie_insert (JString []) (fst (Trie_clear Trie_new)) = Some (fst (Trie_clear Trie_new), []) \<and>
   Trie_search (JString []) (fst (Trie_clear Trie_new)) = Some (None, [])"
  by (simp add: Trie_startsWith_def Trie_insert_def Trie_search_def toLowerCase_def)

text \<open>
  C10 as the code has it: after \<open>clear()\<close> the root is \<open>null\<close>, and every later
  \<open>insert\<close>, \<open>search\<close> or \<open>startsWith\<close> with a non-empty string throws.
\<close>

theorem C10_cleared_trie_has_null_root:
  "root (fst (Trie_clear s)) = None \<and>
   (w \<noteq> [] \<longrightarrow>
      Trie_insert (JString w) (fst (Trie_clear s)) = None \<and>
      Trie_search (JString w) (fst (Trie_clear s)) = None \<and>
      Trie_startsWith (JString w) (fst (Trie_clear s)) = None)"
  by (simp add: Trie_clear_def TreeBase_clear_def Let_def Trie_insert_def Trie_search_def
      Trie_startsWith_def)

theorem C10_witness:
  "''cat'' \<noteq> [] \<and>
   root (fst (Trie_clear Trie_new)) = None \<and>
   Trie_insert (JString ''cat'') (fst (Trie_clear Trie_new)) = None \<and>
   Trie_search (JString ''cat'') (fst (Trie_clear Trie_new)) = None \<and>
   Trie_startsWith (JString ''cat'') (fst (Trie_clear Trie_new)) = None"
proof -
  have ne: "''cat'' \<noteq> []" by simp
  from C10_cleared_trie_has_null_root [of Trie_new "''cat''"] ne
  show ?thesis by blast
qed

end
